theory Spec2Isabelle
  imports Main
begin

section \<open>Time\<close>

text \<open>
  The program reads the clock with \<open>datetime.now()\<close> and \<open>datetime.utcnow()\<close> and
  compares the readings and adds \<open>timedelta\<close>s to them. A reading is modelled as the
  number of microseconds since a fixed epoch (the resolution of Python's \<open>datetime\<close>),
  a \<open>timedelta\<close> as a number of microseconds. Every function that reads the clock
  takes the reading as an argument.
\<close>

type_synonym datetime = int

definition timedelta_minutes :: "int \<Rightarrow> int" where
  "timedelta_minutes m = m * 60000000"

definition timedelta_hours :: "int \<Rightarrow> int" where
  "timedelta_hours h = h * 3600000000"


section \<open>Rate limiting (database.py)\<close>

text \<open>
  Table \<open>rate_limits\<close>: primary key \<open>user_id\<close>, the columns \<open>last_search\<close> and
  \<open>last_upload\<close> (nullable, no default) and the counters \<open>search_count\<close> and
  \<open>upload_count\<close> (default 0). \<open>check_rate_limit\<close> is the only writer of the table,
  so the counters are never NULL. The table is a map from the primary key to the
  other columns.
\<close>

record rate_limit_row =
  last_search :: "datetime option"
  search_count :: int
  last_upload :: "datetime option"
  upload_count :: int

type_synonym rate_limits = "int \<rightharpoonup> rate_limit_row"

text \<open>
  \<open>SELECT search_count FROM rate_limits WHERE user_id = ? AND last_search > ?\<close>:
  a NULL \<open>last_search\<close> is not greater than anything.
\<close>

definition select_search_count :: "rate_limits \<Rightarrow> int \<Rightarrow> datetime \<Rightarrow> int option" where
  "select_search_count db uid since =
     (case db uid of
        None \<Rightarrow> None
      | Some r \<Rightarrow>
          (case last_search r of
             None \<Rightarrow> None
           | Some ls \<Rightarrow> if ls > since then Some (search_count r) else None))"

definition select_upload_count :: "rate_limits \<Rightarrow> int \<Rightarrow> datetime \<Rightarrow> int option" where
  "select_upload_count db uid since =
     (case db uid of
        None \<Rightarrow> None
      | Some r \<Rightarrow>
          (case last_upload r of
             None \<Rightarrow> None
           | Some lu \<Rightarrow> if lu > since then Some (upload_count r) else None))"

text \<open>
  The value of the new counter:
  \<open>COALESCE((SELECT CASE WHEN last_search > ? THEN search_count + 1 ELSE 1 END
  FROM rate_limits WHERE user_id = ?), 1)\<close>.
\<close>

definition next_search_count :: "rate_limits \<Rightarrow> int \<Rightarrow> datetime \<Rightarrow> int" where
  "next_search_count db uid since =
     (case db uid of
        None \<Rightarrow> 1
      | Some r \<Rightarrow>
          (case last_search r of
             None \<Rightarrow> 1
           | Some ls \<Rightarrow> if ls > since then search_count r + 1 else 1))"

definition next_upload_count :: "rate_limits \<Rightarrow> int \<Rightarrow> datetime \<Rightarrow> int" where
  "next_upload_count db uid since =
     (case db uid of
        None \<Rightarrow> 1
      | Some r \<Rightarrow>
          (case last_upload r of
             None \<Rightarrow> 1
           | Some lu \<Rightarrow> if lu > since then upload_count r + 1 else 1))"

text \<open>
  \<open>check_rate_limit\<close> returns the verdict and the table after the call.
  \<open>INSERT OR REPLACE\<close> replaces the whole row: the columns the statement does not
  name take their defaults (NULL and 0). An action other than \<open>search\<close> and
  \<open>upload\<close> is admitted and writes nothing.
\<close>

definition check_rate_limit :: "rate_limits \<Rightarrow> int \<Rightarrow> string \<Rightarrow> datetime \<Rightarrow> bool \<times> rate_limits" where
  "check_rate_limit db user_id action now =
     (if action = ''search'' then
        (let minute_ago = now - timedelta_minutes 1;
             result = select_search_count db user_id minute_ago
         in if (case result of None \<Rightarrow> False | Some c \<Rightarrow> c \<ge> 5) then (False, db)
            else (True, db(user_id \<mapsto>
                    \<lparr>last_search = Some now,
                     search_count = next_search_count db user_id minute_ago,
                     last_upload = None,
                     upload_count = 0\<rparr>)))
      else if action = ''upload'' then
        (let hour_ago = now - timedelta_hours 1;
             result = select_upload_count db user_id hour_ago
         in if (case result of None \<Rightarrow> False | Some c \<Rightarrow> c \<ge> 10) then (False, db)
            else (True, db(user_id \<mapsto>
                    \<lparr>last_search = None,
                     search_count = 0,
                     last_upload = Some now,
                     upload_count = next_upload_count db user_id hour_ago\<rparr>)))
      else (True, db))"

text \<open>Consecutive search checks of one user, at the given clock readings.\<close>

fun search_calls :: "rate_limits \<Rightarrow> int \<Rightarrow> datetime list \<Rightarrow> bool list \<times> rate_limits" where
  "search_calls db uid [] = ([], db)"
| "search_calls db uid (t # ts) =
     (let (ok, db') = check_rate_limit db uid ''search'' t;
          (oks, db'') = search_calls db' uid ts
      in (ok # oks, db''))"

text \<open>The user has no bucket that is still running at the reading \<open>now\<close>.\<close>

definition no_live_bucket :: "rate_limits \<Rightarrow> int \<Rightarrow> datetime \<Rightarrow> bool" where
  "no_live_bucket db uid now \<longleftrightarrow> select_search_count db uid (now - timedelta_minutes 1) = None"


section \<open>Link shortening (verification_system.py, url_shortener.py)\<close>

text \<open>
  What the HTTP call to the shortening service does is an input of the model.
  For \<open>VerificationSystem._create_short_url\<close> (a POST whose reply is read as JSON):
  the call raises, or it answers with a status code and a body. \<open>Not_an_object\<close> is a
  body for which \<open>response.json()\<close> or \<open>result.get\<close> raises; \<open>Object st su\<close> is a
  JSON object with \<open>result.get('status') = st\<close> and \<open>result.get('shortenedUrl') = su\<close>
  (\<open>None\<close> for a key that is absent or null).
\<close>

datatype api_body = Not_an_object | Object "string option" "string option"

datatype http_reply = Raised | Response int api_body

text \<open>
  Table \<open>url_shorteners\<close> (class \<open>URLShortener\<close> of models.py): the columns that
  \<open>_create_short_url\<close> sets. \<open>short_url\<close> is NOT NULL and \<open>short_code\<close> is UNIQUE;
  both are checked when the session is committed.
\<close>

record URLShortener =
  mapping_original_url :: string
  mapping_short_url :: "string option"
  short_code :: string
  mapping_expires_at :: datetime

definition verify_url :: "string \<Rightarrow> string \<Rightarrow> string" where
  "verify_url bot_username verification_token =
     ''https://t.me/'' @ bot_username @ ''?start=verify_'' @ verification_token"

text \<open>
  \<open>_create_short_url\<close> returns the URL (\<open>None\<close> when the service reports success
  without a \<open>shortenedUrl\<close>) and the \<open>URLShortener\<close> row it adds to the session, if
  any. An exception anywhere in the \<open>try\<close> block ends in the \<open>except\<close> branch.
\<close>

definition create_short_url ::
  "string \<Rightarrow> string \<Rightarrow> string \<Rightarrow> http_reply \<Rightarrow> datetime \<Rightarrow> string option \<times> URLShortener option" where
  "create_short_url bot_username original_url verification_token reply now =
     (case reply of
        Raised \<Rightarrow> (Some (verify_url bot_username verification_token), None)
      | Response status body \<Rightarrow>
          if status = 200 then
            (case body of
               Not_an_object \<Rightarrow> (Some (verify_url bot_username verification_token), None)
             | Object st short_url \<Rightarrow>
                 if st = Some ''success'' then
                   (short_url,
                    Some \<lparr>mapping_original_url = original_url,
                          mapping_short_url = short_url,
                          short_code = take 10 verification_token,
                          mapping_expires_at = now + timedelta_hours 24\<rparr>)
                 else (Some (''https://short.link/'' @ take 8 verification_token), None))
          else (Some (''https://short.link/'' @ take 8 verification_token), None))"

text \<open>
  \<open>URLShortener.shorten_url\<close> of url_shortener.py (a GET whose reply is read as
  text): the call raises, or it answers with a status code and a text.
  \<open>str.strip\<close> removes white space at both ends; the text is taken to be Latin-1.
\<close>

datatype text_reply = Text_raised | Text_response int string

definition isspace :: "char \<Rightarrow> bool" where
  "isspace c \<longleftrightarrow> of_char c \<in> {9, 10, 11, 12, 13, 28, 29, 30, 31, 32, 133, 160 :: nat}"

definition strip :: "string \<Rightarrow> string" where
  "strip s = rev (dropWhile isspace (rev (dropWhile isspace s)))"

definition startswith :: "string \<Rightarrow> string \<Rightarrow> bool" where
  "startswith s p \<longleftrightarrow> take (length p) s = p"

definition shorten_url :: "string \<Rightarrow> string \<Rightarrow> text_reply \<Rightarrow> string" where
  "shorten_url api_token original_url reply =
     (if api_token = [] then original_url
      else
        (case reply of
           Text_raised \<Rightarrow> original_url
         | Text_response status body \<Rightarrow>
             if status = 200 then
               (let shortened_url = strip body
                in if shortened_url \<noteq> [] \<and> startswith shortened_url ''http''
                   then shortened_url else original_url)
             else original_url))"


section \<open>The verification ledger (models.py, verification_system.py)\<close>

text \<open>
  Table \<open>users\<close>: primary key \<open>user_id\<close>; of the other columns the verification code
  reads and writes \<open>last_verified\<close> and \<open>verification_count\<close>, both nullable. The
  table is a map from the primary key to these columns.
\<close>

record User =
  last_verified :: "datetime option"
  verification_count :: "int option"

text \<open>
  Table \<open>user_verifications\<close>, one row per issued token, in insertion order. The
  column \<open>id\<close> is \<open>verification_id\<close> here. \<open>verification_token\<close> is UNIQUE.
  \<open>created_at\<close>, \<open>is_verified\<close> and \<open>is_expired\<close> take their defaults (the clock,
  False, False) when the row is inserted, and the code only ever sets the flags to True.
\<close>

record UserVerification =
  verification_id :: nat
  user_id :: int
  movie_id :: int
  verification_token :: string
  short_url :: string
  original_url :: string
  created_at :: datetime
  expires_at :: datetime
  verified_at :: "datetime option"
  is_verified :: bool
  is_expired :: bool

record database =
  users :: "int \<rightharpoonup> User"
  user_verifications :: "UserVerification list"
  url_shorteners :: "URLShortener list"

datatype error = TypeError | IntegrityError

text \<open>\<open>User.is_verified_today\<close> and \<open>UserVerification.is_valid\<close>.\<close>

definition is_verified_today :: "User \<Rightarrow> datetime \<Rightarrow> bool" where
  "is_verified_today u now =
     (case last_verified u of
        None \<Rightarrow> False
      | Some lv \<Rightarrow> now - lv < timedelta_hours 24)"

definition is_valid :: "UserVerification \<Rightarrow> datetime \<Rightarrow> bool" where
  "is_valid v now \<longleftrightarrow> \<not> is_expired v \<and> now < expires_at v"

text \<open>
  \<open>User.mark_verified\<close>: \<open>self.verification_count += 1\<close> raises TypeError when the
  attribute is None.
\<close>

definition mark_verified :: "User \<Rightarrow> datetime \<Rightarrow> error + User" where
  "mark_verified u now =
     (case verification_count u of
        None \<Rightarrow> Inl TypeError
      | Some n \<Rightarrow> Inr (u\<lparr>last_verified := Some now, verification_count := Some (n + 1)\<rparr>))"

text \<open>
  \<open>User(user_id=...)\<close>: the object as constructed. The column default of
  \<open>verification_count\<close> is applied by the INSERT, not by the constructor, so the
  attribute of the new object is None until the session is flushed.
\<close>

definition new_User :: User where
  "new_User = \<lparr>last_verified = None, verification_count = None\<rparr>"

text \<open>
  \<open>check_user_verification_status\<close>: the fields \<open>needs_verification\<close> and
  \<open>last_verified\<close> of its result (\<open>hours_remaining\<close> is computed in floating point and
  is left out).
\<close>

record verification_status =
  needs_verification :: bool
  status_last_verified :: "datetime option"

definition check_user_verification_status :: "database \<Rightarrow> int \<Rightarrow> datetime \<Rightarrow> verification_status" where
  "check_user_verification_status s uid now =
     (case users s uid of
        None \<Rightarrow> \<lparr>needs_verification = True, status_last_verified = None\<rparr>
      | Some user \<Rightarrow>
          if is_verified_today user now
          then \<lparr>needs_verification = False, status_last_verified = last_verified user\<rparr>
          else \<lparr>needs_verification = True, status_last_verified = last_verified user\<rparr>)"

text \<open>
  \<open>create_verification_request\<close>. The token (an MD5 digest over the clock and a
  random UUID) and the reply of the shortening service are inputs, and so are the three
  clock readings: in \<open>_create_short_url\<close>, for \<open>expires_at\<close>, and for the default of
  \<open>created_at\<close>. The commit raises IntegrityError when a NOT NULL or UNIQUE
  constraint fails; then nothing is stored.
\<close>

definition create_verification_request ::
  "string \<Rightarrow> database \<Rightarrow> int \<Rightarrow> int \<Rightarrow> string \<Rightarrow> http_reply \<Rightarrow> datetime \<Rightarrow> datetime \<Rightarrow> datetime
   \<Rightarrow> error + (UserVerification \<times> database)" where
  "create_verification_request bot_username s uid mid token reply t_short t_expires t_created =
     (let orig = verify_url bot_username token;
          (short, mapping) = create_short_url bot_username orig token reply t_short
      in case short of
           None \<Rightarrow> Inl IntegrityError
         | Some su \<Rightarrow>
             if token \<in> set (map verification_token (user_verifications s)) then Inl IntegrityError
             else if (case mapping of
                        None \<Rightarrow> False
                      | Some m \<Rightarrow> short_code m \<in> set (map short_code (url_shorteners s)))
             then Inl IntegrityError
             else
               (let verification =
                      \<lparr>verification_id = Suc (length (user_verifications s)),
                       user_id = uid,
                       movie_id = mid,
                       verification_token = token,
                       short_url = su,
                       original_url = orig,
                       created_at = t_created,
                       expires_at = t_expires + timedelta_hours 24,
                       verified_at = None,
                       is_verified = False,
                       is_expired = False\<rparr>
                in Inr (verification,
                        s\<lparr>user_verifications := user_verifications s @ [verification],
                          url_shorteners := url_shorteners s @
                            (case mapping of None \<Rightarrow> [] | Some m \<Rightarrow> [m])\<rparr>)))"

text \<open>
  The result of \<open>verify_user_by_token\<close>: the dictionary with the keys \<open>success\<close>,
  \<open>user_id\<close>, \<open>movie_id\<close> and \<open>message\<close>; the three message texts are the three
  constructors of \<open>message\<close>.
\<close>

datatype message = Invalid_or_expired_link | Link_expired | Verification_successful

record verify_result =
  success :: bool
  result_user_id :: "int option"
  result_movie_id :: "int option"
  message :: message

text \<open>
  \<open>query.filter_by(verification_token=..., is_verified=False).first()\<close> finds the
  first row that matches; an assignment to an attribute of the object found changes
  that row.
\<close>

definition pending_with :: "string \<Rightarrow> UserVerification \<Rightarrow> bool" where
  "pending_with token v \<longleftrightarrow> verification_token v = token \<and> \<not> is_verified v"

fun update_first :: "('a \<Rightarrow> bool) \<Rightarrow> ('a \<Rightarrow> 'a) \<Rightarrow> 'a list \<Rightarrow> 'a list" where
  "update_first P f [] = []"
| "update_first P f (x # xs) = (if P x then f x # xs else x # update_first P f xs)"

text \<open>
  \<open>verify_user_by_token\<close>, with its three clock readings: in \<open>is_valid\<close>, for
  \<open>verified_at\<close>, and in \<open>mark_verified\<close>. When \<open>mark_verified\<close> raises, the exception
  leaves the function before the commit, and nothing is stored.
\<close>

definition verify_user_by_token ::
  "database \<Rightarrow> string \<Rightarrow> datetime \<Rightarrow> datetime \<Rightarrow> datetime \<Rightarrow> error + (verify_result \<times> database)" where
  "verify_user_by_token s token t_valid t_verified t_marked =
     (case find (pending_with token) (user_verifications s) of
        None \<Rightarrow>
          Inr (\<lparr>success = False, result_user_id = None, result_movie_id = None,
                message = Invalid_or_expired_link\<rparr>, s)
      | Some verification \<Rightarrow>
          if \<not> is_valid verification t_valid then
            Inr (\<lparr>success = False, result_user_id = Some (user_id verification),
                  result_movie_id = Some (movie_id verification), message = Link_expired\<rparr>,
                 s\<lparr>user_verifications :=
                     update_first (pending_with token) (\<lambda>v. v\<lparr>is_expired := True\<rparr>)
                       (user_verifications s)\<rparr>)
          else
            (let user = (case users s (user_id verification) of
                           None \<Rightarrow> new_User
                         | Some u \<Rightarrow> u)
             in case mark_verified user t_marked of
                  Inl e \<Rightarrow> Inl e
                | Inr user' \<Rightarrow>
                    Inr (\<lparr>success = True, result_user_id = Some (user_id verification),
                          result_movie_id = Some (movie_id verification),
                          message = Verification_successful\<rparr>,
                         s\<lparr>user_verifications :=
                             update_first (pending_with token)
                               (\<lambda>v. v\<lparr>is_verified := True, verified_at := Some t_verified\<rparr>)
                               (user_verifications s),
                           users := (users s)(user_id verification \<mapsto> user')\<rparr>)))"

text \<open>
  \<open>get_verification_stats\<close>: the five counts (\<open>success_rate\<close> is a floating-point
  quotient of two of them and is left out). \<open>today_start\<close> is the clock reading with
  hour, minute, second and microsecond set to zero.
\<close>

record verification_stats =
  total_verifications :: nat
  successful_verifications :: nat
  pending_verifications :: nat
  expired_verifications :: nat
  today_verifications :: nat

definition get_verification_stats :: "database \<Rightarrow> datetime \<Rightarrow> verification_stats" where
  "get_verification_stats s now =
     (let rows = user_verifications s;
          today_start = now - now mod timedelta_hours 24
      in \<lparr>total_verifications = length rows,
          successful_verifications = length (filter (\<lambda>v. is_verified v) rows),
          pending_verifications = length (filter (\<lambda>v. \<not> is_verified v) rows),
          expired_verifications = length (filter (\<lambda>v. is_expired v) rows),
          today_verifications = length (filter (\<lambda>v. created_at v \<ge> today_start) rows)\<rparr>)"

text \<open>\<open>cleanup_expired_verifications\<close> returns the number of rows it flagged.\<close>

definition cleanup_expired_verifications :: "database \<Rightarrow> datetime \<Rightarrow> nat \<times> database" where
  "cleanup_expired_verifications s now =
     (let overdue = (\<lambda>v. expires_at v < now \<and> \<not> is_verified v)
      in (length (filter overdue (user_verifications s)),
          s\<lparr>user_verifications :=
              map (\<lambda>v. if overdue v then v\<lparr>is_expired := True\<rparr> else v) (user_verifications s)\<rparr>))"


text \<open>
  \<open>start_command\<close> of auto_filter_bot.py, as far as the modelled columns go: a user
  without a row gets one, inserted with the column defaults (NULL and 0); the row of a
  known user keeps its verification columns.
\<close>

definition start_command :: "database \<Rightarrow> int \<Rightarrow> database" where
  "start_command s uid =
     (case users s uid of
        None \<Rightarrow>
          s\<lparr>users := (users s)(uid \<mapsto> \<lparr>last_verified = None, verification_count = Some 0\<rparr>)\<rparr>
      | Some db_user \<Rightarrow> s)"

text \<open>
  The ledgers the program can reach: from the empty tables, by the operations above
  when they return.
\<close>

definition empty_database :: database where
  "empty_database = \<lparr>users = Map.empty, user_verifications = [], url_shorteners = []\<rparr>"

inductive reachable :: "database \<Rightarrow> bool" where
  initial: "reachable empty_database"
| started: "reachable s \<Longrightarrow> reachable (start_command s uid)"
| issued: "reachable s \<Longrightarrow>
     create_verification_request bname s uid mid token reply ta tb tc = Inr (v, s') \<Longrightarrow>
     reachable s'"
| resolved: "reachable s \<Longrightarrow> verify_user_by_token s token t1 t2 t3 = Inr (r, s') \<Longrightarrow>
     reachable s'"
| cleaned: "reachable s \<Longrightarrow> reachable (snd (cleanup_expired_verifications s now))"

text \<open>The subject has a verified token in the ledger.\<close>

definition verified_before :: "database \<Rightarrow> int \<Rightarrow> bool" where
  "verified_before s uid \<longleftrightarrow>
     (\<exists>v \<in> set (user_verifications s). user_id v = uid \<and> is_verified v)"


text \<open>
  The live tokens of a pair of subject and resource at the reading \<open>now\<close>: the rows
  of the pair that are not verified, not flagged expired and not past their expiry.
\<close>

definition live_tokens :: "database \<Rightarrow> int \<Rightarrow> int \<Rightarrow> datetime \<Rightarrow> UserVerification list" where
  "live_tokens s uid mid now =
     filter (\<lambda>v. user_id v = uid \<and> movie_id v = mid \<and> \<not> is_verified v \<and> is_valid v now)
       (user_verifications s)"

text \<open>
  The other implementation of the same step, \<open>Database.create_verification_request\<close>
  of database.py, on its table \<open>url_visits\<close> (the column \<open>id\<close>, which this code does
  not read, is left out; \<open>created_at\<close> takes the clock as its default). The token, a
  random UUID, is an input. The function first deletes every request of the user and
  then inserts the new one.
\<close>

record url_visit =
  visit_user_id :: int
  visit_movie_id :: int
  shortened_url :: string
  visit_token :: string
  visit_time :: "datetime option"
  visit_created_at :: datetime

definition Database_create_verification_request ::
  "url_visit list \<Rightarrow> int \<Rightarrow> int \<Rightarrow> string \<Rightarrow> string \<Rightarrow> datetime \<Rightarrow> string \<times> url_visit list" where
  "Database_create_verification_request url_visits uid mid url token now =
     (token,
      filter (\<lambda>r. visit_user_id r \<noteq> uid) url_visits
        @ [\<lparr>visit_user_id = uid, visit_movie_id = mid, shortened_url = url,
             visit_token = token, visit_time = None, visit_created_at = now\<rparr>])"


section \<open>The bulk upload queue (bulk_upload_handler.py, config.py)\<close>

definition MAX_CONCURRENT_UPLOADS :: nat where
  "MAX_CONCURRENT_UPLOADS = 5"

text \<open>\<open>Config.BULK_UPLOAD_DELAY\<close> is 0.5 seconds; here in milliseconds.\<close>

definition BULK_UPLOAD_DELAY :: nat where
  "BULK_UPLOAD_DELAY = 500"

text \<open>
  The handler's state, with queue items of any type \<open>'a\<close>. What the drain loop does
  is recorded as a trace: the batches it hands to \<open>asyncio.gather\<close> and its calls of
  \<open>asyncio.sleep\<close>, in order.
\<close>

record 'a BulkUploadHandler =
  upload_queue :: "'a list"
  is_processing :: bool

datatype 'a event = Batch "'a list" | Sleep nat

text \<open>
  \<open>_process_single_upload\<close> runs its whole body in \<open>try\<close>: it returns True when
  the body completes and False when the body raises an \<open>Exception\<close>. Whether the body
  raises for an item (while parsing the caption, shortening the URL or storing the
  movie) is the input \<open>raises\<close>.
\<close>

definition process_single_upload :: "('a \<Rightarrow> bool) \<Rightarrow> 'a \<Rightarrow> bool" where
  "process_single_upload raises upload_item = (if raises upload_item then False else True)"

text \<open>
  The inner loop \<open>for _ in range(n): if self.upload_queue:
  batch.append(self.upload_queue.pop(0))\<close>; it returns the batch and the rest of the
  queue.
\<close>

fun pop_batch :: "nat \<Rightarrow> 'a list \<Rightarrow> 'a list \<Rightarrow> 'a list \<times> 'a list" where
  "pop_batch 0 queue batch = (batch, queue)"
| "pop_batch (Suc n) [] batch = pop_batch n [] batch"
| "pop_batch (Suc n) (x # queue) batch = pop_batch n queue (batch @ [x])"

lemma pop_batch_rest_length: "length (snd (pop_batch n queue batch)) = length queue - n"
  by (induction n queue batch rule: pop_batch.induct) simp_all

text \<open>
  The results of \<open>asyncio.gather(*tasks, return_exceptions=True)\<close>: for each task the
  \<open>Exception\<close> it raised (\<open>Inl\<close>) or the value it returned (\<open>Inr\<close>). The loop over
  the results updates the two counters.
\<close>

fun count_results :: "(unit + bool) list \<Rightarrow> nat \<Rightarrow> nat \<Rightarrow> nat \<times> nat" where
  "count_results [] processed_count failed_count = (processed_count, failed_count)"
| "count_results (Inl e # results) processed_count failed_count =
     count_results results processed_count (failed_count + 1)"
| "count_results (Inr r # results) processed_count failed_count =
     (if r then count_results results (processed_count + 1) failed_count
      else count_results results processed_count (failed_count + 1))"

text \<open>
  The \<open>while self.upload_queue\<close> loop, for any task function \<open>task\<close> that gives the
  result of processing an item. It returns the queue, the counters and the trace.
  Here the queue changes by the loop's own pops only; \<open>drain_loop_with_arrivals\<close>
  below is the loop with the items that other tasks append while it is suspended.
\<close>

function drain_loop ::
  "('a \<Rightarrow> unit + bool) \<Rightarrow> 'a list \<Rightarrow> nat \<Rightarrow> nat \<Rightarrow> 'a event list
   \<Rightarrow> 'a list \<times> nat \<times> nat \<times> 'a event list" where
  "drain_loop task queue processed_count failed_count trace =
     (if queue = [] then (queue, processed_count, failed_count, trace)
      else
        (let popped = pop_batch (min MAX_CONCURRENT_UPLOADS (length queue)) queue [];
             batch = fst popped;
             queue' = snd popped;
             results = map task batch;
             counts = count_results results processed_count failed_count;
             trace' = trace @ [Batch batch]
         in if queue' \<noteq> []
            then drain_loop task queue' (fst counts) (snd counts) (trace' @ [Sleep BULK_UPLOAD_DELAY])
            else drain_loop task queue' (fst counts) (snd counts) trace'))"
  by pat_completeness auto
termination
proof (relation "measure (\<lambda>(task, queue, p, f, trace). length queue)", goal_cases)
  case 1
  show ?case by simp
next
  case (2 task queue p f trace popped batch queue')
  then show ?case
    by (cases queue) (simp_all add: pop_batch_rest_length MAX_CONCURRENT_UPLOADS_def)
next
  case (3 task queue p f trace popped batch queue')
  then show ?case
    by (cases queue) (simp_all add: pop_batch_rest_length MAX_CONCURRENT_UPLOADS_def)
qed

declare drain_loop.simps [simp del]

text \<open>
  \<open>_process_upload_queue\<close>: nothing happens when a drain is already running;
  otherwise the loop runs and the flag is cleared in \<open>finally\<close>. The completion
  summary (the two counters) is produced only when one of them is positive.
\<close>

record 'a drain_outcome =
  handler :: "'a BulkUploadHandler"
  summary :: "(nat \<times> nat) option"
  events :: "'a event list"

definition process_upload_queue ::
  "('a \<Rightarrow> unit + bool) \<Rightarrow> 'a BulkUploadHandler \<Rightarrow> 'a drain_outcome" where
  "process_upload_queue task h =
     (if is_processing h then \<lparr>handler = h, summary = None, events = []\<rparr>
      else
        (case drain_loop task (upload_queue h) 0 0 [] of
           (queue, processed_count, failed_count, trace) \<Rightarrow>
             \<lparr>handler = \<lparr>upload_queue = queue, is_processing = False\<rparr>,
              summary = (if processed_count > 0 \<or> failed_count > 0
                         then Some (processed_count, failed_count) else None),
              events = trace\<rparr>))"

text \<open>
  The drain among other tasks. \<open>add_to_upload_queue\<close> appends to the tail of the same
  queue, and it can run whenever the drain is suspended: while it awaits
  \<open>asyncio.gather\<close> and while it awaits \<open>asyncio.sleep\<close>. What is appended is an
  input, \<open>arrivals\<close>: for the awaits of the loop, in order, the items appended during
  each. An await beyond the end of the list sees no arrival.
\<close>

definition arrived :: "'a list list \<Rightarrow> 'a list" where
  "arrived arrivals = (case arrivals of [] \<Rightarrow> [] | a # later \<Rightarrow> a)"

lemma length_concat_arrivals:
  "length (concat arrivals) = length (arrived arrivals) + length (concat (tl arrivals))"
  by (cases arrivals) (simp_all add: arrived_def)

text \<open>
  The \<open>while self.upload_queue\<close> loop with arrivals: the items that arrived during
  \<open>gather\<close> are in the queue when \<open>if self.upload_queue\<close> decides about the sleep,
  those that arrived during the sleep when the loop tests its condition again.
\<close>

function drain_loop_with_arrivals ::
  "('a \<Rightarrow> unit + bool) \<Rightarrow> 'a list list \<Rightarrow> 'a list \<Rightarrow> nat \<Rightarrow> nat \<Rightarrow> 'a event list
   \<Rightarrow> 'a list \<times> nat \<times> nat \<times> 'a event list" where
  "drain_loop_with_arrivals task arrivals queue processed_count failed_count trace =
     (if queue = [] then (queue, processed_count, failed_count, trace)
      else
        (let popped = pop_batch (min MAX_CONCURRENT_UPLOADS (length queue)) queue [];
             batch = fst popped;
             results = map task batch;
             queue' = snd popped @ arrived arrivals;
             counts = count_results results processed_count failed_count;
             trace' = trace @ [Batch batch]
         in if queue' \<noteq> []
            then drain_loop_with_arrivals task (tl (tl arrivals))
                   (queue' @ arrived (tl arrivals)) (fst counts) (snd counts)
                   (trace' @ [Sleep BULK_UPLOAD_DELAY])
            else drain_loop_with_arrivals task (tl arrivals) queue'
                   (fst counts) (snd counts) trace'))"
  by pat_completeness auto
termination
proof (relation "measure (\<lambda>(task, arrivals, queue, p, f, trace).
                   length queue + length (concat arrivals))", goal_cases)
  case 1
  show ?case by simp
next
  case (2 task arrivals queue p f trace popped batch results queue')
  then show ?case
    using length_concat_arrivals [of arrivals] length_concat_arrivals [of "tl arrivals"]
    by (cases queue) (simp_all add: pop_batch_rest_length MAX_CONCURRENT_UPLOADS_def)
next
  case (3 task arrivals queue p f trace popped batch results queue')
  then show ?case
    using length_concat_arrivals [of arrivals]
    by (cases queue) (simp_all add: pop_batch_rest_length MAX_CONCURRENT_UPLOADS_def)
qed

declare drain_loop_with_arrivals.simps [simp del]

definition process_upload_queue_with_arrivals ::
  "('a \<Rightarrow> unit + bool) \<Rightarrow> 'a list list \<Rightarrow> 'a BulkUploadHandler \<Rightarrow> 'a drain_outcome" where
  "process_upload_queue_with_arrivals task arrivals h =
     (if is_processing h then \<lparr>handler = h, summary = None, events = []\<rparr>
      else
        (case drain_loop_with_arrivals task arrivals (upload_queue h) 0 0 [] of
           (queue, processed_count, failed_count, trace) \<Rightarrow>
             \<lparr>handler = \<lparr>upload_queue = queue, is_processing = False\<rparr>,
              summary = (if processed_count > 0 \<or> failed_count > 0
                         then Some (processed_count, failed_count) else None),
              events = trace\<rparr>))"

text \<open>The batches of a trace, and the trace that sleeps between the given batches.\<close>

fun batches_of :: "'a event list \<Rightarrow> 'a list list" where
  "batches_of [] = []"
| "batches_of (Batch b # es) = b # batches_of es"
| "batches_of (Sleep d # es) = batches_of es"

fun paced :: "'a list list \<Rightarrow> 'a event list" where
  "paced [] = []"
| "paced [b] = [Batch b]"
| "paced (b # bs) = Batch b # Sleep BULK_UPLOAD_DELAY # paced bs"

text \<open>
  The batches as the specification describes them: \<open>ceil(N / batchSize)\<close> batches, the
  \<open>i\<close>-th holding the next \<open>batchSize\<close> items from the head of the queue.
\<close>

definition batches_by_spec :: "'a list \<Rightarrow> 'a list list" where
  "batches_by_spec queue =
     map (\<lambda>i. take MAX_CONCURRENT_UPLOADS (drop (MAX_CONCURRENT_UPLOADS * i) queue))
       [0 ..< (length queue + (MAX_CONCURRENT_UPLOADS - 1)) div MAX_CONCURRENT_UPLOADS]"

text \<open>
  A task function for the examples: processing raises for item 3, returns False for
  item 5 and True for every other item.
\<close>

definition example_task :: "nat \<Rightarrow> unit + bool" where
  "example_task i = (if i = 3 then Inl () else Inr (i \<noteq> 5))"


section \<open>Example data\<close>

text \<open>A ledger with one registered user (id 1) and no tokens.\<close>

definition one_user_ledger :: database where
  "one_user_ledger =
     \<lparr>users = [1 \<mapsto> \<lparr>last_verified = None, verification_count = Some 0\<rparr>],
      user_verifications = [],
      url_shorteners = []\<rparr>"


section \<open>Properties of the rate limiter\<close>

lemma check_rate_limit_denied_frame:
  "check_rate_limit db uid action now = (False, db') \<Longrightarrow> db' = db"
  by (auto simp: check_rate_limit_def Let_def split: if_splits)

lemma check_rate_limit_denied_only_when_full:
  assumes "check_rate_limit db uid ''search'' now = (False, db')"
  shows "\<exists>c. select_search_count db uid (now - timedelta_minutes 1) = Some c \<and> 5 \<le> c"
  using assms
  by (auto simp: check_rate_limit_def Let_def split: if_splits option.splits)

lemma search_fresh:
  "no_live_bucket db uid t \<Longrightarrow>
   check_rate_limit db uid ''search'' t =
     (True, db(uid \<mapsto> \<lparr>last_search = Some t, search_count = 1,
                        last_upload = None, upload_count = 0\<rparr>))"
  by (auto simp: check_rate_limit_def no_live_bucket_def select_search_count_def
      next_search_count_def Let_def split: option.splits if_splits)

lemma search_live:
  "db uid = Some r \<Longrightarrow> last_search r = Some ls \<Longrightarrow> t - timedelta_minutes 1 < ls \<Longrightarrow>
   check_rate_limit db uid ''search'' t =
     (if 5 \<le> search_count r then (False, db)
      else (True, db(uid \<mapsto> \<lparr>last_search = Some t, search_count = search_count r + 1,
                             last_upload = None, upload_count = 0\<rparr>)))"
  by (auto simp: check_rate_limit_def select_search_count_def next_search_count_def Let_def)

lemma search_calls_snoc:
  "search_calls db uid (ts @ [t])
   = (fst (search_calls db uid ts)
        @ [fst (check_rate_limit (snd (search_calls db uid ts)) uid ''search'' t)],
      snd (check_rate_limit (snd (search_calls db uid ts)) uid ''search'' t))"
proof (induction ts arbitrary: db)
  case Nil
  show ?case by (simp add: split_def Let_def)
next
  case (Cons a ts)
  show ?case
    by (simp add: split_def Let_def Cons.IH)
qed

text \<open>
  Claim C9. When the subject's row holds the limit or more uses (5 searches, 10
  uploads) and its time stamp lies within the window (one minute, one hour) before the
  call, \<open>check_rate_limit\<close> returns False and the table it leaves is the table it
  found: the row, its counter and its time stamp are unchanged.
\<close>

theorem check_rate_limit_full_bucket_denied_unchanged:
  assumes "db uid = Some r"
    and "action = ''search'' \<and> last_search r = Some t \<and> now - timedelta_minutes 1 < t
           \<and> 5 \<le> search_count r
         \<or> action = ''upload'' \<and> last_upload r = Some t \<and> now - timedelta_hours 1 < t
           \<and> 10 \<le> upload_count r"
  shows "check_rate_limit db uid action now = (False, db)"
proof -
  from assms(2) consider
    (search) "action = ''search''" "last_search r = Some t" "now - timedelta_minutes 1 < t"
      "5 \<le> search_count r"
    | (upload) "action = ''upload''" "last_upload r = Some t" "now - timedelta_hours 1 < t"
      "10 \<le> upload_count r"
    by blast
  then show ?thesis
  proof cases
    case search
    with assms(1) show ?thesis
      by (simp add: check_rate_limit_def select_search_count_def Let_def)
  next
    case upload
    with assms(1) show ?thesis
      by (simp add: check_rate_limit_def select_upload_count_def Let_def)
  qed
qed

theorem check_rate_limit_full_bucket_witness:
  "check_rate_limit
     [7 \<mapsto> \<lparr>last_search = Some 0, search_count = 5, last_upload = None, upload_count = 0\<rparr>]
     7 ''search'' 30000000
   = (False,
      [7 \<mapsto> \<lparr>last_search = Some 0, search_count = 5, last_upload = None, upload_count = 0\<rparr>])"
  using check_rate_limit_full_bucket_denied_unchanged
    [of "[7 \<mapsto> \<lparr>last_search = Some 0, search_count = 5, last_upload = None, upload_count = 0\<rparr>]"
        7 "\<lparr>last_search = Some 0, search_count = 5, last_upload = None, upload_count = 0\<rparr>"
        "''search''" 0 30000000]
  by (simp add: timedelta_minutes_def)

text \<open>
  Claim C2, as amended. A subject with no running bucket makes search checks at the
  readings \<open>t1 \<le> ... \<le> t6\<close>, the sixth less than 60 seconds after the first: the first
  five are admitted and the sixth is denied. Each admitted check stores its own
  reading in \<open>last_search\<close>: after the six checks the row holds the count 5 and the
  reading \<open>t5\<close> of the last admitted check. The window is measured from that
  reading, not from the first check: a seventh check, at any reading \<open>t7\<close>, is
  admitted if and only if 60 seconds or more have elapsed since \<open>t5\<close>. So it is still
  denied at every \<open>t7\<close> before \<open>t5 + 60 s\<close>, also when \<open>t7\<close> is 60 seconds or more
  after \<open>t1\<close>.
\<close>

theorem search_limit_window_from_last_admitted:
  assumes "no_live_bucket db uid t1"
    and "t1 \<le> t2" "t2 \<le> t3" "t3 \<le> t4" "t4 \<le> t5" "t5 \<le> t6"
    and "t6 < t1 + timedelta_minutes 1"
  shows "fst (search_calls db uid [t1, t2, t3, t4, t5, t6, t7])
         = [True, True, True, True, True, False, t5 + timedelta_minutes 1 \<le> t7]
       \<and> snd (search_calls db uid [t1, t2, t3, t4, t5, t6]) uid
         = Some \<lparr>last_search = Some t5, search_count = 5,
                  last_upload = None, upload_count = 0\<rparr>"
proof -
  let ?six = "search_calls db uid [t1, t2, t3, t4, t5, t6]"
  have six: "fst ?six = [True, True, True, True, True, False]"
    and row: "snd ?six uid = Some \<lparr>last_search = Some t5, search_count = 5,
                      last_upload = None, upload_count = 0\<rparr>"
    using assms
    by (simp_all add: search_fresh search_live no_live_bucket_def select_search_count_def)
  from row have seventh:
    "fst (check_rate_limit (snd ?six) uid ''search'' t7) = (t5 + timedelta_minutes 1 \<le> t7)"
    by (auto simp: check_rate_limit_def select_search_count_def Let_def)
  have "fst (search_calls db uid ([t1, t2, t3, t4, t5, t6] @ [t7]))
        = fst ?six @ [fst (check_rate_limit (snd ?six) uid ''search'' t7)]"
    by (simp only: search_calls_snoc fst_conv)
  with six seventh row show ?thesis
    by (simp only: append_Cons append_Nil)
qed

theorem search_limit_window_witness:
  "fst (search_calls Map.empty 1
          [0, 10000000, 20000000, 30000000, 40000000, 50000000, 100000000])
   = [True, True, True, True, True, False, True]
   \<and> fst (search_calls Map.empty 1
          [0, 10000000, 20000000, 30000000, 40000000, 50000000, 70000000])
   = [True, True, True, True, True, False, False]"
  using search_limit_window_from_last_admitted
    [of Map.empty 1 0 10000000 20000000 30000000 40000000 50000000 100000000]
    search_limit_window_from_last_admitted
    [of Map.empty 1 0 10000000 20000000 30000000 40000000 50000000 70000000]
  by (simp add: no_live_bucket_def select_search_count_def timedelta_minutes_def)

text \<open>
  The claim as stated fails: with checks at 0, 50, 51, 52 and 53 seconds admitted and
  a sixth at 55 seconds denied, a check at 61 seconds, more than 60 seconds after the
  first, is still denied.
\<close>

theorem search_limit_window_not_from_first:
  "fst (search_calls Map.empty 1
          [0, 50000000, 51000000, 52000000, 53000000, 55000000, 61000000])
   = [True, True, True, True, True, False, False]"
  by (simp add: check_rate_limit_def select_search_count_def next_search_count_def
      timedelta_minutes_def Let_def)


section \<open>Properties of the verification ledger\<close>

subsection \<open>Updating the first matching row\<close>

lemma find_update_first_keep:
  "(\<And>x. P x \<Longrightarrow> P (f x)) \<Longrightarrow> find P (update_first P f xs) = map_option f (find P xs)"
  by (induction xs) auto

lemma map_update_first:
  "(\<And>x. g (f x) = g x) \<Longrightarrow> map g (update_first P f xs) = map g xs"
  by (induction xs) auto

lemma length_update_first: "length (update_first P f xs) = length xs"
  by (induction xs) auto

lemma pending_with_flag_expired:
  "pending_with token (v\<lparr>is_expired := True\<rparr>) = pending_with token v"
  by (simp add: pending_with_def)

lemma not_pending_with_verified:
  "\<not> pending_with token (v\<lparr>is_verified := True, verified_at := t\<rparr>)"
  by (simp add: pending_with_def)

text \<open>
  Tokens are unique in the table (the UNIQUE constraint, kept by
  \<open>create_verification_request\<close>): a token that has a row which is not verified is
  found, and after its verification no pending row carries it.
\<close>

lemma find_pending_unique:
  "distinct (map verification_token rows) \<Longrightarrow> v \<in> set rows \<Longrightarrow> \<not> is_verified v \<Longrightarrow>
   find (pending_with (verification_token v)) rows = Some v"
proof (induction rows)
  case Nil
  then show ?case by simp
next
  case (Cons x xs)
  show ?case
  proof (cases "x = v")
    case True
    with Cons.prems show ?thesis by (simp add: pending_with_def)
  next
    case False
    with Cons.prems have "v \<in> set xs" by simp
    with Cons.prems have "verification_token x \<noteq> verification_token v" by force
    with Cons \<open>v \<in> set xs\<close> show ?thesis by (simp add: pending_with_def)
  qed
qed

lemma find_pending_after_verified:
  "distinct (map verification_token rows) \<Longrightarrow>
   find (pending_with token)
     (update_first (pending_with token) (\<lambda>v. v\<lparr>is_verified := True, verified_at := Some t\<rparr>) rows) = None"
proof (induction rows)
  case Nil
  then show ?case by simp
next
  case (Cons x xs)
  show ?case
  proof (cases "pending_with token x")
    case True
    then have "verification_token x = token" by (simp add: pending_with_def)
    with Cons.prems have "\<forall>y\<in>set xs. verification_token y \<noteq> token" by (auto simp: image_iff)
    then have "find (pending_with token) xs = None"
      by (auto simp: find_None_iff pending_with_def)
    with True show ?thesis by (simp add: not_pending_with_verified)
  next
    case False
    with Cons show ?thesis by simp
  qed
qed

subsection \<open>Successful verification\<close>

lemma verify_success_shape:
  assumes "verify_user_by_token s token t1 t2 t3 = Inr (r, s')" and "success r"
  shows "\<exists>v u.
    find (pending_with token) (user_verifications s) = Some v \<and>
    is_valid v t1 \<and>
    mark_verified (case users s (user_id v) of None \<Rightarrow> new_User | Some u \<Rightarrow> u) t3 = Inr u \<and>
    r = \<lparr>success = True, result_user_id = Some (user_id v),
          result_movie_id = Some (movie_id v), message = Verification_successful\<rparr> \<and>
    s' = s\<lparr>user_verifications :=
              update_first (pending_with token)
                (\<lambda>v. v\<lparr>is_verified := True, verified_at := Some t2\<rparr>) (user_verifications s),
            users := (users s)(user_id v \<mapsto> u)\<rparr>"
  using assms
  by (auto simp: verify_user_by_token_def Let_def split: option.splits if_splits sum.splits)

subsection \<open>Issuing a challenge\<close>

lemma create_shape:
  assumes "create_verification_request bname s uid mid token reply ta tb tc = Inr (v, s')"
  shows "user_verifications s' = user_verifications s @ [v] \<and> users s' = users s
         \<and> user_id v = uid \<and> movie_id v = mid \<and> verification_token v = token
         \<and> \<not> is_verified v \<and> \<not> is_expired v \<and> expires_at v = tb + timedelta_hours 24
         \<and> token \<notin> set (map verification_token (user_verifications s))"
  using assms
  by (auto simp: create_verification_request_def Let_def split: prod.splits option.splits if_splits)

lemma find_append_miss: "\<not> P y \<Longrightarrow> find P (xs @ [y]) = find P xs"
  by (induction xs) auto

subsection \<open>Unique tokens are an invariant\<close>

lemma create_keeps_tokens_distinct:
  assumes "create_verification_request bname s uid mid token reply ta tb tc = Inr (v, s')"
    and "distinct (map verification_token (user_verifications s))"
  shows "distinct (map verification_token (user_verifications s'))"
  using create_shape [OF assms(1)] assms(2) by simp

lemma verify_keeps_tokens:
  assumes "verify_user_by_token s token t1 t2 t3 = Inr (r, s')"
  shows "map verification_token (user_verifications s')
         = map verification_token (user_verifications s)"
  using assms
  by (auto simp: verify_user_by_token_def Let_def map_update_first
      split: option.splits if_splits sum.splits)

lemma cleanup_keeps_tokens:
  "map verification_token (user_verifications (snd (cleanup_expired_verifications s now)))
   = map verification_token (user_verifications s)"
  by (simp add: cleanup_expired_verifications_def Let_def comp_def if_distrib cong: if_cong)

lemma reachable_tokens_distinct:
  "reachable s \<Longrightarrow> distinct (map verification_token (user_verifications s))"
proof (induction rule: reachable.induct)
  case initial
  show ?case by (simp add: empty_database_def)
next
  case (started s uid)
  then show ?case by (simp add: start_command_def split: option.splits)
next
  case (issued s bname uid mid token reply ta tb tc v s')
  then show ?case by (simp add: create_keeps_tokens_distinct)
next
  case (resolved s token t1 t2 t3 r s')
  then show ?case by (simp add: verify_keeps_tokens)
next
  case (cleaned s now)
  then show ?case by (simp add: cleanup_keeps_tokens)
qed

subsection \<open>A stored verification time comes from a verified token\<close>

text \<open>
  \<open>mark_verified\<close> is the only writer of \<open>last_verified\<close>, and it runs only in a
  successful \<open>verify_user_by_token\<close>: in a reachable ledger a user with a
  \<open>last_verified\<close> has a verified token.
\<close>

lemma set_update_first_verified:
  "find P xs = Some x \<Longrightarrow> f x \<in> set (update_first P f xs)"
  by (induction xs) (auto split: if_splits)

lemma update_first_keeps_verified:
  assumes "\<And>x. is_verified x \<Longrightarrow> is_verified (f x)" and "\<And>x. user_id (f x) = user_id x"
    and "y \<in> set xs" and "is_verified y"
  shows "\<exists>z \<in> set (update_first P f xs). user_id z = user_id y \<and> is_verified z"
  using assms(3,4)
proof (induction xs)
  case Nil
  then show ?case by simp
next
  case (Cons x xs)
  then show ?case using assms(1,2) by (cases "P x") auto
qed

lemma reachable_last_verified:
  "reachable s \<Longrightarrow> users s uid = Some u \<Longrightarrow> last_verified u = Some lv \<Longrightarrow> verified_before s uid"
proof (induction arbitrary: uid u lv rule: reachable.induct)
  case initial
  then show ?case by (simp add: empty_database_def)
next
  case (started s uid')
  then show ?case
    by (auto simp: start_command_def verified_before_def split: option.splits if_splits)
next
  case (issued s bname uid' mid token reply ta tb tc v s')
  from create_shape [OF issued.hyps(2)] issued.prems issued.IH [of uid u lv]
  show ?case by (auto simp: verified_before_def)
next
  case (resolved s token t1 t2 t3 r s')
  show ?case
  proof (cases "success r")
    case True
    from verify_success_shape [OF resolved.hyps(2) True] obtain v u' where
      f: "find (pending_with token) (user_verifications s) = Some v"
      and rows: "user_verifications s' = update_first (pending_with token)
                (\<lambda>v. v\<lparr>is_verified := True, verified_at := Some t2\<rparr>) (user_verifications s)"
      and us: "users s' = (users s)(user_id v \<mapsto> u')"
      by auto
    show ?thesis
    proof (cases "uid = user_id v")
      case True
      from set_update_first_verified [OF f, of "\<lambda>v. v\<lparr>is_verified := True, verified_at := Some t2\<rparr>"]
      have "v\<lparr>is_verified := True, verified_at := Some t2\<rparr> \<in> set (user_verifications s')"
        by (simp add: rows)
      moreover have "user_id (v\<lparr>is_verified := True, verified_at := Some t2\<rparr>) = uid"
        and "is_verified (v\<lparr>is_verified := True, verified_at := Some t2\<rparr>)"
        using True by simp_all
      ultimately show ?thesis unfolding verified_before_def by blast
    next
      case False
      with us resolved.prems have "users s uid = Some u" by simp
      with resolved.IH resolved.prems have "verified_before s uid" by blast
      then obtain y where "y \<in> set (user_verifications s)" "user_id y = uid" "is_verified y"
        by (auto simp: verified_before_def)
      with update_first_keeps_verified [of "\<lambda>v. v\<lparr>is_verified := True, verified_at := Some t2\<rparr>" y "user_verifications s" "pending_with token"]
      show ?thesis unfolding verified_before_def rows by auto
    qed
  next
    case False
    with resolved.hyps(2) have us: "users s' = users s"
      and rows: "user_verifications s' = user_verifications s \<or>
        user_verifications s' = update_first (pending_with token) (\<lambda>v. v\<lparr>is_expired := True\<rparr>) (user_verifications s)"
      by (auto simp: verify_user_by_token_def Let_def split: option.splits if_splits sum.splits)
    from us resolved.IH resolved.prems have "verified_before s uid" by simp
    then obtain y where y: "y \<in> set (user_verifications s)" "user_id y = uid" "is_verified y"
      by (auto simp: verified_before_def)
    from rows show ?thesis
    proof
      assume "user_verifications s' = user_verifications s"
      with y show ?thesis by (auto simp: verified_before_def)
    next
      assume r: "user_verifications s' = update_first (pending_with token) (\<lambda>v. v\<lparr>is_expired := True\<rparr>) (user_verifications s)"
      from update_first_keeps_verified [of "\<lambda>v. v\<lparr>is_expired := True\<rparr>" y "user_verifications s" "pending_with token"] y
      show ?thesis unfolding verified_before_def r by auto
    qed
  qed
next
  case (cleaned s now)
  then have "verified_before s uid"
    by (simp add: cleanup_expired_verifications_def Let_def)
  then show ?case
    by (force simp: verified_before_def cleanup_expired_verifications_def Let_def)
qed

text \<open>
  For a subject without a row in \<open>users\<close>, resolving a valid token raises: the
  \<open>User\<close> constructed on the spot has no \<open>verification_count\<close> to increment.
\<close>

lemma verify_unregistered_user_raises:
  assumes "find (pending_with token) (user_verifications s) = Some v"
    and "is_valid v t1" and "users s (user_id v) = None"
  shows "verify_user_by_token s token t1 t2 t3 = Inl TypeError"
  using assms by (simp add: verify_user_by_token_def new_User_def mark_verified_def)

subsection \<open>Claims on issuing and resolving tokens\<close>

text \<open>
  Issuing a challenge invalidates nothing. A successful
  \<open>create_verification_request\<close> appends one row, which is bound to the pair, not
  verified, not flagged and valid for 24 hours, and leaves every earlier row as it
  was: at every reading before the new expiry, the live tokens of the pair are those
  it had before, followed by the new one. Resolving an earlier token after the new
  challenge gives the same result as resolving it before.
\<close>

lemma challenge_keeps_earlier_tokens:
  assumes "create_verification_request bname s uid mid token reply ta tb tc = Inr (v, s')"
  shows "user_verifications s' = user_verifications s @ [v]
         \<and> user_id v = uid \<and> movie_id v = mid \<and> verification_token v = token
         \<and> \<not> is_verified v \<and> \<not> is_expired v \<and> expires_at v = tb + timedelta_hours 24
         \<and> (\<forall>now. now < tb + timedelta_hours 24 \<longrightarrow>
               live_tokens s' uid mid now = live_tokens s uid mid now @ [v])
         \<and> (\<forall>old \<in> set (user_verifications s). \<forall>t1 t2 t3.
               map_sum id fst (verify_user_by_token s' (verification_token old) t1 t2 t3)
               = map_sum id fst (verify_user_by_token s (verification_token old) t1 t2 t3))"
proof -
  note sh = create_shape [OF assms]
  have "map_sum id fst (verify_user_by_token s' (verification_token old) t1 t2 t3)
        = map_sum id fst (verify_user_by_token s (verification_token old) t1 t2 t3)"
    if "old \<in> set (user_verifications s)" for old t1 t2 t3
  proof -
    from that sh have "verification_token old \<noteq> verification_token v"
      by (metis image_eqI set_map)
    then have "\<not> pending_with (verification_token old) v"
      by (simp add: pending_with_def)
    then have "find (pending_with (verification_token old)) (user_verifications s')
               = find (pending_with (verification_token old)) (user_verifications s)"
      using sh by (simp add: find_append_miss)
    then show ?thesis using sh
      by (simp add: verify_user_by_token_def Let_def split: option.splits sum.splits)
  qed
  moreover have "live_tokens s' uid mid now = live_tokens s uid mid now @ [v]"
    if "now < tb + timedelta_hours 24" for now
    using sh that by (simp add: live_tokens_def is_valid_def)
  ultimately show ?thesis using sh by blast
qed

text \<open>
  A live earlier token of a registered subject is therefore still resolved with
  success after any number of later challenges, here after one.
\<close>

lemma earlier_live_token_still_resolves:
  assumes "create_verification_request bname s uid mid token reply ta tb tc = Inr (v, s')"
    and "distinct (map verification_token (user_verifications s))"
    and "old \<in> set (user_verifications s)" and "\<not> is_verified old" and "is_valid old t1"
    and "users s (user_id old) = Some u" and "verification_count u = Some n"
  shows "\<exists>r s''. verify_user_by_token s' (verification_token old) t1 t2 t3 = Inr (r, s'')
           \<and> success r \<and> result_user_id r = Some (user_id old)"
proof -
  from assms(2-4)
  have f: "find (pending_with (verification_token old)) (user_verifications s) = Some old"
    by (rule find_pending_unique)
  with assms(5-7)
  have "\<exists>r s''. verify_user_by_token s (verification_token old) t1 t2 t3 = Inr (r, s'')
           \<and> success r \<and> result_user_id r = Some (user_id old)"
    by (simp add: verify_user_by_token_def mark_verified_def)
  then obtain r s0 where
    before: "verify_user_by_token s (verification_token old) t1 t2 t3 = Inr (r, s0)"
    and ok: "success r" "result_user_id r = Some (user_id old)"
    by blast
  from challenge_keeps_earlier_tokens [OF assms(1)] assms(3)
  have "map_sum id fst (verify_user_by_token s' (verification_token old) t1 t2 t3)
        = map_sum id fst (verify_user_by_token s (verification_token old) t1 t2 t3)"
    by blast
  with before have "map_sum id fst (verify_user_by_token s' (verification_token old) t1 t2 t3)
                    = Inr r"
    by simp
  then obtain s'' where "verify_user_by_token s' (verification_token old) t1 t2 t3 = Inr (r, s'')"
    by (cases "verify_user_by_token s' (verification_token old) t1 t2 t3") auto
  with ok show ?thesis by blast
qed

text \<open>
  The other implementation does invalidate: after
  \<open>Database.create_verification_request\<close> the only request of the user in
  \<open>url_visits\<close> is the new one, and the requests of other users are untouched.
\<close>

lemma Database_create_verification_request_replaces:
  "filter (\<lambda>r. visit_user_id r = uid)
     (snd (Database_create_verification_request url_visits uid mid url token now))
   = [\<lparr>visit_user_id = uid, visit_movie_id = mid, shortened_url = url,
        visit_token = token, visit_time = None, visit_created_at = now\<rparr>]
   \<and> filter (\<lambda>r. visit_user_id r \<noteq> uid)
       (snd (Database_create_verification_request url_visits uid mid url token now))
     = filter (\<lambda>r. visit_user_id r \<noteq> uid) url_visits"
  by (simp add: Database_create_verification_request_def filter_empty_conv)


text \<open>
  Claim C4. In a ledger with unique tokens, once \<open>verify_user_by_token\<close> has
  succeeded for a token, every later call with the same token returns the failure for
  an unknown token (\<open>success = False\<close>, no user, the message for an invalid link) and
  leaves the whole ledger unchanged: the user's \<open>last_verified\<close> and
  \<open>verification_count\<close> are not touched again.
\<close>

theorem resolved_token_cannot_be_resolved_again:
  assumes "distinct (map verification_token (user_verifications s))"
    and "verify_user_by_token s token t1 t2 t3 = Inr (r, s')"
    and "success r"
  shows "verify_user_by_token s' token t1' t2' t3'
         = Inr (\<lparr>success = False, result_user_id = None, result_movie_id = None,
                  message = Invalid_or_expired_link\<rparr>, s')"
proof -
  from verify_success_shape [OF assms(2,3)]
  have "user_verifications s'
        = update_first (pending_with token)
            (\<lambda>v. v\<lparr>is_verified := True, verified_at := Some t2\<rparr>) (user_verifications s)"
    by auto
  with assms(1) have "find (pending_with token) (user_verifications s') = None"
    by (simp add: find_pending_after_verified)
  then show ?thesis by (simp add: verify_user_by_token_def)
qed

theorem resolved_token_cannot_be_resolved_again_witness:
  "\<exists>v s1 r s2.
     create_verification_request ''bot'' one_user_ledger 1 7 ''a1'' Raised 0 0 0 = Inr (v, s1)
   \<and> verify_user_by_token s1 ''a1'' 1000000 1000000 1000000 = Inr (r, s2)
   \<and> success r
   \<and> verify_user_by_token s2 ''a1'' 2000000 2000000 2000000
       = Inr (\<lparr>success = False, result_user_id = None, result_movie_id = None,
                message = Invalid_or_expired_link\<rparr>, s2)"
proof -
  have "\<exists>v s1 r s2.
      create_verification_request ''bot'' one_user_ledger 1 7 ''a1'' Raised 0 0 0 = Inr (v, s1)
    \<and> distinct (map verification_token (user_verifications s1))
    \<and> verify_user_by_token s1 ''a1'' 1000000 1000000 1000000 = Inr (r, s2)
    \<and> success r"
    by (simp add: create_verification_request_def create_short_url_def one_user_ledger_def
        Let_def verify_user_by_token_def pending_with_def is_valid_def mark_verified_def
        timedelta_hours_def)
  then obtain v s1 r s2 where
    c: "create_verification_request ''bot'' one_user_ledger 1 7 ''a1'' Raised 0 0 0 = Inr (v, s1)"
    and d: "distinct (map verification_token (user_verifications s1))"
    and e: "verify_user_by_token s1 ''a1'' 1000000 1000000 1000000 = Inr (r, s2)"
    and ok: "success r"
    by blast
  from resolved_token_cannot_be_resolved_again [OF d e ok] c e ok show ?thesis
    by blast
qed

text \<open>
  Claim C5. In a ledger with unique tokens, for every token that is still pending
  (its row is not verified): a call of \<open>verify_user_by_token\<close> at or after the row's
  \<open>expires_at\<close> fails with the result for an expired link, whatever else holds of
  the ledger and of the later clock readings. It sets the row's \<open>is_expired\<close> flag,
  marks no row verified and leaves the \<open>users\<close> table unchanged.
\<close>

theorem unverified_token_expires:
  assumes "distinct (map verification_token (user_verifications s))"
    and "v \<in> set (user_verifications s)" and "\<not> is_verified v"
    and "expires_at v \<le> now"
  shows "\<exists>s'. verify_user_by_token s (verification_token v) now t2 t3
           = Inr (\<lparr>success = False, result_user_id = Some (user_id v),
                   result_movie_id = Some (movie_id v), message = Link_expired\<rparr>, s')
         \<and> find (pending_with (verification_token v)) (user_verifications s')
             = Some (v\<lparr>is_expired := True\<rparr>)
         \<and> map is_verified (user_verifications s') = map is_verified (user_verifications s)
         \<and> users s' = users s"
proof -
  from assms(1-3)
  have f: "find (pending_with (verification_token v)) (user_verifications s) = Some v"
    by (rule find_pending_unique)
  from assms(4) have "\<not> is_valid v now"
    by (simp add: is_valid_def)
  with f show ?thesis
    by (simp add: verify_user_by_token_def find_update_first_keep map_update_first
        pending_with_flag_expired)
qed

theorem unverified_token_expires_witness:
  "\<exists>v s1 s2.
     create_verification_request ''bot'' one_user_ledger 1 7 ''a1'' Raised 0 0 0 = Inr (v, s1)
   \<and> verify_user_by_token s1 ''a1'' 86400000000 86400000000 86400000000
       = Inr (\<lparr>success = False, result_user_id = Some 1, result_movie_id = Some 7,
                message = Link_expired\<rparr>, s2)
   \<and> find (pending_with ''a1'') (user_verifications s2) = Some (v\<lparr>is_expired := True\<rparr>)
   \<and> map is_verified (user_verifications s2) = [False]
   \<and> users s2 = users s1"
proof -
  have "\<exists>v s1.
      create_verification_request ''bot'' one_user_ledger 1 7 ''a1'' Raised 0 0 0 = Inr (v, s1)
    \<and> user_verifications s1 = [v] \<and> verification_token v = ''a1'' \<and> \<not> is_verified v
    \<and> expires_at v = 86400000000 \<and> user_id v = 1 \<and> movie_id v = 7"
    by (simp add: create_verification_request_def create_short_url_def one_user_ledger_def
        Let_def timedelta_hours_def)
  then obtain v s1 where
    c: "create_verification_request ''bot'' one_user_ledger 1 7 ''a1'' Raised 0 0 0 = Inr (v, s1)"
    and rows: "user_verifications s1 = [v]" and tok: "verification_token v = ''a1''"
    and nv: "\<not> is_verified v" and ex: "expires_at v = 86400000000"
    and ids: "user_id v = 1" "movie_id v = 7"
    by blast
  have d: "distinct (map verification_token (user_verifications s1))"
    and m: "v \<in> set (user_verifications s1)"
    and late: "expires_at v \<le> 86400000000"
    using rows ex by simp_all
  from unverified_token_expires [OF d m nv late, of 86400000000 86400000000] c rows tok nv ids
  show ?thesis by auto
qed

text \<open>
  A token that is already verified is terminal: the lookup does not find it, so it is
  answered as an unknown token before its expiry is looked at, also when it is
  presented after its expiry (24 hours), and its row keeps \<open>is_expired = False\<close>.
\<close>

lemma verified_token_stays_terminal_after_expiry:
  "\<exists>v s1 r s2.
     create_verification_request ''bot'' one_user_ledger 1 7 ''a1'' Raised 0 0 0 = Inr (v, s1)
   \<and> verify_user_by_token s1 ''a1'' 1000000 1000000 1000000 = Inr (r, s2) \<and> success r
   \<and> expires_at v < 90000000000
   \<and> verify_user_by_token s2 ''a1'' 90000000000 90000000000 90000000000
       = Inr (\<lparr>success = False, result_user_id = None, result_movie_id = None,
                message = Invalid_or_expired_link\<rparr>, s2)
   \<and> map is_expired (user_verifications s2) = [False]"
  by (simp add: create_verification_request_def create_short_url_def one_user_ledger_def Let_def
      verify_user_by_token_def pending_with_def is_valid_def mark_verified_def
      timedelta_hours_def)

text \<open>
  Claim C6. When \<open>verify_user_by_token\<close> succeeds, the subject named in its result
  has \<open>last_verified\<close> set to the reading \<open>t3\<close> taken by \<open>mark_verified\<close>, and from then
  on \<open>check_user_verification_status\<close> asks for a new verification exactly at the
  readings \<open>now\<close> with \<open>now - t3 \<ge> 24 hours\<close>: the window is open right after the
  verification (at \<open>now = t3\<close>) and closed once 24 hours or more have elapsed. In any
  ledger the window of a subject is open iff the subject has a row with a
  \<open>last_verified\<close> less than 24 hours before \<open>now\<close>; in a reachable ledger such a
  subject has a verified token.
\<close>

theorem window_open_for_24_hours_after_verification:
  assumes "verify_user_by_token s token t1 t2 t3 = Inr (r, s')" and "success r"
  shows "(\<exists>uid u. result_user_id r = Some uid \<and> users s' uid = Some u
            \<and> last_verified u = Some t3
            \<and> \<not> needs_verification (check_user_verification_status s' uid t3)
            \<and> (\<forall>now. needs_verification (check_user_verification_status s' uid now)
                        \<longleftrightarrow> timedelta_hours 24 \<le> now - t3))
         \<and> (\<forall>d uid now. \<not> needs_verification (check_user_verification_status d uid now)
                \<longleftrightarrow> (\<exists>u lv. users d uid = Some u \<and> last_verified u = Some lv
                        \<and> now - lv < timedelta_hours 24))
         \<and> (\<forall>d uid now. reachable d
                \<longrightarrow> \<not> needs_verification (check_user_verification_status d uid now)
                \<longrightarrow> verified_before d uid)"
proof -
  from verify_success_shape [OF assms]
  have "\<exists>uid u. result_user_id r = Some uid \<and> users s' uid = Some u
          \<and> last_verified u = Some t3"
    by (auto simp: mark_verified_def split: option.splits)
  then obtain uid u where r: "result_user_id r = Some uid"
    and u: "users s' uid = Some u" and lv: "last_verified u = Some t3"
    by blast
  have iff: "needs_verification (check_user_verification_status s' uid now)
             \<longleftrightarrow> timedelta_hours 24 \<le> now - t3" for now
    using u lv
    by (simp add: check_user_verification_status_def is_verified_today_def not_less)
  have "\<not> needs_verification (check_user_verification_status s' uid t3)"
    by (simp add: iff timedelta_hours_def)
  moreover have open_iff: "\<not> needs_verification (check_user_verification_status d x now)
                \<longleftrightarrow> (\<exists>u lv. users d x = Some u \<and> last_verified u = Some lv
                        \<and> now - lv < timedelta_hours 24)" for d x now
    by (auto simp: check_user_verification_status_def is_verified_today_def
        split: option.splits)
  moreover have "verified_before d x"
    if "reachable d" and "\<not> needs_verification (check_user_verification_status d x now)"
    for d x now
    using that open_iff [of d x now] reachable_last_verified [of d x] by blast
  ultimately show ?thesis using r u lv iff by blast
qed

theorem window_open_for_24_hours_witness:
  "\<exists>v s1 r s2.
     create_verification_request ''bot'' one_user_ledger 1 7 ''a1'' Raised 0 0 0 = Inr (v, s1)
   \<and> verify_user_by_token s1 ''a1'' 1000000 1000000 1000000 = Inr (r, s2)
   \<and> success r \<and> result_user_id r = Some 1
   \<and> \<not> needs_verification (check_user_verification_status s2 1 1000000)
   \<and> \<not> needs_verification (check_user_verification_status s2 1 86400999999)
   \<and> needs_verification (check_user_verification_status s2 1 86401000000)"
proof -
  have "\<exists>v s1 r s2.
      create_verification_request ''bot'' one_user_ledger 1 7 ''a1'' Raised 0 0 0 = Inr (v, s1)
    \<and> verify_user_by_token s1 ''a1'' 1000000 1000000 1000000 = Inr (r, s2)
    \<and> success r \<and> result_user_id r = Some 1"
    by (simp add: create_verification_request_def create_short_url_def one_user_ledger_def
        Let_def verify_user_by_token_def pending_with_def is_valid_def mark_verified_def
        timedelta_hours_def)
  then obtain v s1 r s2 where
    c: "create_verification_request ''bot'' one_user_ledger 1 7 ''a1'' Raised 0 0 0 = Inr (v, s1)"
    and e: "verify_user_by_token s1 ''a1'' 1000000 1000000 1000000 = Inr (r, s2)"
    and ok: "success r" and uid: "result_user_id r = Some 1"
    by blast
  from window_open_for_24_hours_after_verification [OF e ok] uid
  have "\<forall>now. needs_verification (check_user_verification_status s2 1 now)
               \<longleftrightarrow> timedelta_hours 24 \<le> now - 1000000"
    by auto
  then have "\<not> needs_verification (check_user_verification_status s2 1 1000000)"
    and "\<not> needs_verification (check_user_verification_status s2 1 86400999999)"
    and "needs_verification (check_user_verification_status s2 1 86401000000)"
    by (simp_all add: timedelta_hours_def)
  with c e ok uid show ?thesis by blast
qed

subsection \<open>Ledger statistics\<close>

text \<open>
  Claim C10. In the result of \<open>get_verification_stats\<close> the pending count is the
  number of rows with \<open>is_verified = False\<close> and the verified count the number with
  \<open>is_verified = True\<close>, so the two add up to the total. The rows that are flagged
  expired and not verified are part of the pending count. The three counts therefore
  do not partition the rows: together they exceed the total by the number of rows
  flagged expired.
\<close>

theorem stats_pending_and_verified_cover_total:
  "pending_verifications (get_verification_stats s now)
     = length (filter (\<lambda>v. \<not> is_verified v) (user_verifications s))
   \<and> successful_verifications (get_verification_stats s now)
     = length (filter (\<lambda>v. is_verified v) (user_verifications s))
   \<and> pending_verifications (get_verification_stats s now)
       + successful_verifications (get_verification_stats s now)
     = total_verifications (get_verification_stats s now)
   \<and> pending_verifications (get_verification_stats s now)
     = length (filter (\<lambda>v. \<not> is_verified v \<and> \<not> is_expired v) (user_verifications s))
       + length (filter (\<lambda>v. \<not> is_verified v \<and> is_expired v) (user_verifications s))
   \<and> pending_verifications (get_verification_stats s now)
       + successful_verifications (get_verification_stats s now)
       + expired_verifications (get_verification_stats s now)
     = total_verifications (get_verification_stats s now)
       + length (filter (\<lambda>v. is_expired v) (user_verifications s))"
proof -
  let ?rows = "user_verifications s"
  have cover: "length (filter (\<lambda>v. \<not> is_verified v) ?rows)
               + length (filter (\<lambda>v. is_verified v) ?rows) = length ?rows"
    using sum_length_filter_compl [of is_verified ?rows] by simp
  have split: "length (filter (\<lambda>v. \<not> is_verified v) ?rows)
               = length (filter (\<lambda>v. \<not> is_verified v \<and> \<not> is_expired v) ?rows)
                 + length (filter (\<lambda>v. \<not> is_verified v \<and> is_expired v) ?rows)"
    using sum_length_filter_compl
      [of "\<lambda>v. \<not> is_expired v" "filter (\<lambda>v. \<not> is_verified v) ?rows"]
    by (simp add: conj_commute)
  from cover split show ?thesis
    by (simp add: get_verification_stats_def Let_def)
qed

text \<open>
  An example of the overlap: of two rows, one verified and one flagged expired by
  \<open>cleanup_expired_verifications\<close>, the statistics report one pending, one verified
  and one expired row.
\<close>

lemma stats_overlap_example:
  "\<exists>v s1 r s2 v' s3.
     create_verification_request ''bot'' one_user_ledger 1 7 ''a1'' Raised 0 0 0 = Inr (v, s1)
   \<and> verify_user_by_token s1 ''a1'' 1000000 1000000 1000000 = Inr (r, s2)
   \<and> create_verification_request ''bot'' s2 1 8 ''b2'' Raised 2000000 2000000 2000000
       = Inr (v', s3)
   \<and> get_verification_stats (snd (cleanup_expired_verifications s3 90000000000)) 90000000000
       = \<lparr>total_verifications = 2, successful_verifications = 1, pending_verifications = 1,
          expired_verifications = 1, today_verifications = 0\<rparr>"
  by (simp add: create_verification_request_def create_short_url_def one_user_ledger_def Let_def
      verify_user_by_token_def pending_with_def is_valid_def mark_verified_def
      timedelta_hours_def cleanup_expired_verifications_def get_verification_stats_def)


section \<open>Properties of link shortening\<close>

text \<open>
  Where the fallbacks return the original URL: in \<open>_create_short_url\<close> when the call
  raises or the body cannot be read, and in \<open>shorten_url\<close> on every failure.
\<close>

lemma create_short_url_on_exception:
  "create_short_url bname (verify_url bname token) token Raised now
     = (Some (verify_url bname token), None)"
  "create_short_url bname (verify_url bname token) token (Response 200 Not_an_object) now
     = (Some (verify_url bname token), None)"
  by (simp_all add: create_short_url_def)

lemma shorten_url_falls_back:
  "shorten_url api_token url Text_raised = url"
  "status \<noteq> 200 \<Longrightarrow> shorten_url api_token url (Text_response status body) = url"
  "\<not> startswith (strip body) ''http'' \<Longrightarrow>
     shorten_url api_token url (Text_response status body) = url"
  "shorten_url [] url reply = url"
  by (simp_all add: shorten_url_def Let_def)

lemma shorten_url_result:
  "shorten_url api_token url reply = url
   \<or> (\<exists>body. reply = Text_response 200 body \<and> shorten_url api_token url reply = strip body
        \<and> startswith (strip body) ''http'')"
  by (auto simp: shorten_url_def Let_def split: text_reply.splits)

text \<open>
  Claim C3 fails on the code. When the shortening service answers with a status other
  than 200 (here 500), or with status 200 and a JSON object whose \<open>status\<close> is not
  \<open>success\<close>, \<open>_create_short_url\<close> returns neither the original URL nor a URL of
  the service, but \<open>https://short.link/\<close> followed by the first eight characters of
  the token, and stores no mapping for it.
\<close>

theorem create_short_url_invents_link_on_api_failure:
  "create_short_url bname (verify_url bname token) token (Response 500 body) now
     = (Some (''https://short.link/'' @ take 8 token), None)
   \<and> create_short_url bname (verify_url bname token) token
         (Response 200 (Object (Some ''error'') su)) now
     = (Some (''https://short.link/'' @ take 8 token), None)
   \<and> ''https://short.link/'' @ take 8 token \<noteq> verify_url bname token"
  by (simp add: create_short_url_def verify_url_def)

text \<open>
  The invented link reaches the user: the challenge is stored and returned with it as
  its \<open>short_url\<close>.
\<close>

lemma challenge_carries_invented_link:
  "\<exists>v s1.
     create_verification_request ''bot'' one_user_ledger 1 7 ''0123456789abcdef''
       (Response 500 Not_an_object) 0 0 0 = Inr (v, s1)
   \<and> short_url v = ''https://short.link/01234567''
   \<and> original_url v = ''https://t.me/bot?start=verify_0123456789abcdef''"
  by (simp add: create_verification_request_def create_short_url_def one_user_ledger_def Let_def
      verify_url_def)

section \<open>Properties of the bulk upload queue\<close>

lemma pop_batch_eq: "pop_batch n queue batch = (batch @ take n queue, drop n queue)"
  by (induction n queue batch rule: pop_batch.induct) simp_all

lemma count_results_eq:
  "count_results results p f
   = (p + length (filter (\<lambda>r. r = Inr True) results),
      f + length (filter (\<lambda>r. r \<noteq> Inr True) results))"
  by (induction results p f rule: count_results.induct) simp_all

text \<open>
  \<open>_process_single_upload\<close> never raises: as a task its result is always a returned
  value.
\<close>

lemma process_single_upload_returns:
  "Inr (process_single_upload raises upload_item) = Inr (\<not> raises upload_item)"
  by (simp add: process_single_upload_def)

lemma ceil_div_step:
  fixes n :: nat
  assumes "0 < n"
  shows "(n + 4) div 5 = Suc ((n - 5 + 4) div 5)"
proof (cases "5 \<le> n")
  case True
  then have "n + 4 = (n - 5 + 4) + 5" by simp
  then have "(n + 4) div 5 = ((n - 5 + 4) + 5) div 5" by (rule arg_cong)
  then show ?thesis by (simp only: div_add_self2)
next
  case False
  with assms have "n + 4 = (n - 1) + 5" and "n - 1 < 5" by simp_all
  then have "(n + 4) div 5 = Suc ((n - 1) div 5)" and "(n - 1) div 5 = 0"
    by simp_all
  with False show ?thesis by simp
qed

lemma batches_by_spec_Nil: "batches_by_spec [] = []"
  by (simp add: batches_by_spec_def MAX_CONCURRENT_UPLOADS_def)

lemma batches_by_spec_step:
  assumes "queue \<noteq> []"
  shows "batches_by_spec queue
         = take MAX_CONCURRENT_UPLOADS queue
           # batches_by_spec (drop MAX_CONCURRENT_UPLOADS queue)"
proof -
  from assms have "0 < length queue" by simp
  then have n: "(length queue + 4) div 5 = Suc ((length queue - 5 + 4) div 5)"
    by (rule ceil_div_step)
  have "map (\<lambda>i. take 5 (drop (5 * i) queue)) [0 ..< Suc ((length queue - 5 + 4) div 5)]
        = take 5 queue
          # map (\<lambda>i. take 5 (drop (5 * i) (drop 5 queue))) [0 ..< (length queue - 5 + 4) div 5]"
    by (simp add: upt_conv_Cons map_Suc_upt [symmetric] del: upt_Suc add: add.commute)
  with n show ?thesis
    by (simp add: batches_by_spec_def MAX_CONCURRENT_UPLOADS_def)
qed

lemma batches_by_spec_empty_iff: "batches_by_spec queue = [] \<longleftrightarrow> queue = []"
  by (cases "queue = []") (simp_all add: batches_by_spec_Nil batches_by_spec_step)

lemma concat_batches_by_spec: "concat (batches_by_spec queue) = queue"
proof (induction queue rule: length_induct)
  case (1 queue)
  show ?case
  proof (cases "queue = []")
    case True
    then show ?thesis by (simp add: batches_by_spec_Nil)
  next
    case False
    then have "length (drop MAX_CONCURRENT_UPLOADS queue) < length queue"
      by (simp add: MAX_CONCURRENT_UPLOADS_def)
    with 1 have "concat (batches_by_spec (drop MAX_CONCURRENT_UPLOADS queue))
                 = drop MAX_CONCURRENT_UPLOADS queue"
      by blast
    with False show ?thesis by (simp add: batches_by_spec_step)
  qed
qed

lemma paced_step:
  "paced (b # bs) = Batch b # (if bs = [] then [] else Sleep BULK_UPLOAD_DELAY # paced bs)"
  by (cases bs) simp_all

lemma batches_of_paced: "batches_of (paced bs) = bs"
  by (induction bs rule: paced.induct) simp_all

text \<open>
  The loop, started with any counters and trace: it empties the queue, adds to the
  counters the numbers of items whose task returned True and of all other items, and
  appends the paced trace of the specified batches.
\<close>

lemma drain_loop_eq:
  "drain_loop task queue p f trace
   = ([], p + length (filter (\<lambda>i. task i = Inr True) queue),
          f + length (filter (\<lambda>i. task i \<noteq> Inr True) queue),
      trace @ paced (batches_by_spec queue))"
proof (induction task queue p f trace rule: drain_loop.induct)
  case (1 task queue p f trace)
  show ?case
  proof (cases "queue = []")
    case True
    then show ?thesis
      by (subst drain_loop.simps) (simp add: batches_by_spec_Nil)
  next
    case False
    let ?n = MAX_CONCURRENT_UPLOADS
    let ?b = "take ?n queue" and ?q = "drop ?n queue"
    let ?ok = "\<lambda>i. task i = Inr True" and ?bad = "\<lambda>i. task i \<noteq> Inr True"
    have pop: "pop_batch (min ?n (length queue)) queue [] = (?b, ?q)"
      by (simp add: pop_batch_eq min_def)
    have counts: "count_results (map task ?b) p f
                  = (p + length (filter ?ok ?b), f + length (filter ?bad ?b))"
      by (simp add: count_results_eq filter_map comp_def)
    have parts: "length (filter P ?b) + length (filter P ?q) = length (filter P queue)" for P
      by (metis append_take_drop_id filter_append length_append)
    have rest: "drain_loop task ?q (p + length (filter ?ok ?b)) (f + length (filter ?bad ?b)) tr
          = ([], p + length (filter ?ok ?b) + length (filter ?ok ?q),
                 f + length (filter ?bad ?b) + length (filter ?bad ?q),
             tr @ paced (batches_by_spec ?q))"
      if "tr = (trace @ [Batch ?b]) @ [Sleep BULK_UPLOAD_DELAY] \<and> ?q \<noteq> []
          \<or> tr = trace @ [Batch ?b] \<and> ?q = []" for tr
    proof (cases "?q = []")
      case True
      with that have "tr = trace @ [Batch ?b]" by auto
      with "1.IH"(2) [OF False refl refl refl refl refl refl] True pop counts
      show ?thesis by simp
    next
      case nonempty: False
      with that have "tr = (trace @ [Batch ?b]) @ [Sleep BULK_UPLOAD_DELAY]" by auto
      with "1.IH"(1) [OF False refl refl refl refl refl refl] nonempty pop counts
      show ?thesis by simp
    qed
    have "drain_loop task queue p f trace
          = (if ?q \<noteq> []
             then drain_loop task ?q (p + length (filter ?ok ?b)) (f + length (filter ?bad ?b))
                    ((trace @ [Batch ?b]) @ [Sleep BULK_UPLOAD_DELAY])
             else drain_loop task ?q (p + length (filter ?ok ?b)) (f + length (filter ?bad ?b))
                    (trace @ [Batch ?b]))"
      by (subst drain_loop.simps)
        (simp only: False if_False Let_def pop counts fst_conv snd_conv)
    also have "\<dots> = ([], p + length (filter ?ok ?b) + length (filter ?ok ?q),
                 f + length (filter ?bad ?b) + length (filter ?bad ?q),
             (if ?q \<noteq> [] then (trace @ [Batch ?b]) @ [Sleep BULK_UPLOAD_DELAY]
               else trace @ [Batch ?b]) @ paced (batches_by_spec ?q))"
    proof (cases "?q = []")
      case True
      then show ?thesis
        using rest [of "trace @ [Batch ?b]"] by (simp only: if_False if_True not_not) simp
    next
      case nonempty: False
      then show ?thesis
        using rest [of "(trace @ [Batch ?b]) @ [Sleep BULK_UPLOAD_DELAY]"]
        by (simp only: if_False if_True not_not) simp
    qed
    also have "\<dots> = ([], p + length (filter ?ok queue), f + length (filter ?bad queue),
                     trace @ paced (batches_by_spec queue))"
    proof -
      have "paced (batches_by_spec queue)
            = Batch ?b
              # (if ?q = [] then [] else Sleep BULK_UPLOAD_DELAY # paced (batches_by_spec ?q))"
        using False by (simp add: batches_by_spec_step paced_step batches_by_spec_empty_iff)
      moreover have "?q = [] \<Longrightarrow> paced (batches_by_spec ?q) = []"
        by (simp add: batches_by_spec_Nil)
      ultimately show ?thesis
        using parts [of ?ok] parts [of ?bad] by (simp add: add.assoc)
    qed
    finally show ?thesis .
  qed
qed

lemma process_upload_queue_eq:
  assumes "\<not> is_processing h"
  shows "process_upload_queue task h
         = \<lparr>handler = \<lparr>upload_queue = [], is_processing = False\<rparr>,
            summary = (if upload_queue h = [] then None
                       else Some (length (filter (\<lambda>i. task i = Inr True) (upload_queue h)),
                                  length (filter (\<lambda>i. task i \<noteq> Inr True) (upload_queue h)))),
            events = paced (batches_by_spec (upload_queue h))\<rparr>"
proof -
  let ?q = "upload_queue h"
  have "length (filter (\<lambda>i. task i = Inr True) ?q) + length (filter (\<lambda>i. task i \<noteq> Inr True) ?q)
        = length ?q"
    using sum_length_filter_compl [of "\<lambda>i. task i = Inr True" ?q] by simp
  then have "(0 < length (filter (\<lambda>i. task i = Inr True) ?q)
              \<or> 0 < length (filter (\<lambda>i. task i \<noteq> Inr True) ?q)) \<longleftrightarrow> ?q \<noteq> []"
    by (cases ?q) auto
  with assms show ?thesis
    by (simp add: process_upload_queue_def drain_loop_eq)
qed

text \<open>An evaluation of the loop itself: seven items, the task of the examples.\<close>

lemma drain_example:
  "process_upload_queue example_task \<lparr>upload_queue = [1, 2, 3, 4, 5, 6, 7], is_processing = False\<rparr>
   = \<lparr>handler = \<lparr>upload_queue = [], is_processing = False\<rparr>,
      summary = Some (5, 2),
      events = [Batch [1, 2, 3, 4, 5], Sleep 500, Batch [6, 7]]\<rparr>"
  by (simp add: process_upload_queue_def drain_loop.simps pop_batch_eq count_results_eq
      example_task_def MAX_CONCURRENT_UPLOADS_def BULK_UPLOAD_DELAY_def Let_def)

text \<open>
  A drain during which nothing is enqueued: with \<open>N\<close> items in the queue it hands
  \<open>ceil(N / 5)\<close> batches to processing. The \<open>i\<close>-th batch is the items
  \<open>5 i, ..., 5 i + 4\<close> of the queue (as far as they exist): the batches are taken from
  the head in FIFO order, each has between one and five items, and together they are
  the queue. The trace is the batches with one sleep between consecutive batches and
  none after the last.
\<close>

lemma drain_runs_ceil_batches_in_fifo_order:
  assumes "\<not> is_processing h"
  shows "length (batches_of (events (process_upload_queue task h)))
           = (length (upload_queue h) + 4) div 5
       \<and> (\<forall>i < length (batches_of (events (process_upload_queue task h))).
            batches_of (events (process_upload_queue task h)) ! i
              = take 5 (drop (5 * i) (upload_queue h)))
       \<and> (\<forall>b \<in> set (batches_of (events (process_upload_queue task h))).
            b \<noteq> [] \<and> length b \<le> 5)
       \<and> concat (batches_of (events (process_upload_queue task h))) = upload_queue h
       \<and> events (process_upload_queue task h)
           = paced (batches_of (events (process_upload_queue task h)))"
proof -
  let ?q = "upload_queue h"
  have bs: "batches_of (events (process_upload_queue task h)) = batches_by_spec ?q"
    using assms by (simp add: process_upload_queue_eq batches_of_paced)
  have len: "length (batches_by_spec ?q) = (length ?q + 4) div 5"
    by (simp add: batches_by_spec_def MAX_CONCURRENT_UPLOADS_def)
  have nth: "batches_by_spec ?q ! i = take 5 (drop (5 * i) ?q)"
    if "i < length (batches_by_spec ?q)" for i
    using that by (simp add: batches_by_spec_def MAX_CONCURRENT_UPLOADS_def)
  have size: "b \<noteq> [] \<and> length b \<le> 5" if "b \<in> set (batches_by_spec ?q)" for b
  proof -
    from that obtain i where i: "i < (length ?q + 4) div 5" and b: "b = take 5 (drop (5 * i) ?q)"
      by (auto simp: batches_by_spec_def MAX_CONCURRENT_UPLOADS_def)
    from i have "5 * i < length ?q" by simp
    with b show ?thesis by simp
  qed
  have ev: "events (process_upload_queue task h) = paced (batches_by_spec ?q)"
    using assms by (simp add: process_upload_queue_eq)
  from len nth size ev show ?thesis
    unfolding bs by (simp add: concat_batches_by_spec)
qed

text \<open>
  Claim C8. Whatever the task does for each item (raise, return False or return
  True), the drain returns, with every queued item handed to processing exactly once
  and in order, the queue empty and the flag cleared. For a queue that is not empty
  the completion summary counts the items whose task returned True as processed and
  all others, those that raised and those that returned False, as failed; the two
  counts add up to the number of items.
\<close>

theorem drain_isolates_failing_items:
  assumes "\<not> is_processing h"
  shows "concat (batches_of (events (process_upload_queue task h))) = upload_queue h
       \<and> handler (process_upload_queue task h) = \<lparr>upload_queue = [], is_processing = False\<rparr>
       \<and> (upload_queue h \<noteq> [] \<longrightarrow>
            summary (process_upload_queue task h)
              = Some (length (filter (\<lambda>i. task i = Inr True) (upload_queue h)),
                      length (filter (\<lambda>i. task i \<noteq> Inr True) (upload_queue h))))
       \<and> length (filter (\<lambda>i. task i = Inr True) (upload_queue h))
           + length (filter (\<lambda>i. task i \<noteq> Inr True) (upload_queue h))
           = length (upload_queue h)"
proof -
  let ?q = "upload_queue h"
  have "length (filter (\<lambda>i. task i = Inr True) ?q) + length (filter (\<lambda>i. task i \<noteq> Inr True) ?q)
        = length ?q"
    using sum_length_filter_compl [of "\<lambda>i. task i = Inr True" ?q] by simp
  with assms show ?thesis
    by (simp add: process_upload_queue_eq batches_of_paced concat_batches_by_spec)
qed

theorem drain_isolates_failing_items_witness:
  "concat (batches_of (events (process_upload_queue example_task
      \<lparr>upload_queue = [1, 2, 3, 4, 5, 6, 7], is_processing = False\<rparr>))) = [1, 2, 3, 4, 5, 6, 7]
   \<and> handler (process_upload_queue example_task
      \<lparr>upload_queue = [1, 2, 3, 4, 5, 6, 7], is_processing = False\<rparr>)
       = \<lparr>upload_queue = [], is_processing = False\<rparr>
   \<and> summary (process_upload_queue example_task
      \<lparr>upload_queue = [1, 2, 3, 4, 5, 6, 7], is_processing = False\<rparr>) = Some (5, 2)"
  using drain_isolates_failing_items
    [of "\<lparr>upload_queue = [1, 2, 3, 4, 5, 6, 7], is_processing = False\<rparr>" example_task]
  by (simp add: example_task_def)

subsection \<open>The drain with arrivals\<close>

lemma arrived_Nil: "concat arrivals = [] \<Longrightarrow> arrived arrivals = []"
  by (cases arrivals) (simp_all add: arrived_def)

lemma concat_tl_Nil: "concat arrivals = [] \<Longrightarrow> concat (tl arrivals) = []"
  by (cases arrivals) simp_all

lemma concat_take_Suc:
  "concat (take (Suc k) arrivals) = arrived arrivals @ concat (take k (tl arrivals))"
  by (cases arrivals) (simp_all add: arrived_def)

lemma drain_loop_without_arrivals:
  "concat arrivals = [] \<Longrightarrow>
   drain_loop_with_arrivals task arrivals queue p f trace = drain_loop task queue p f trace"
proof (induction task arrivals queue p f trace rule: drain_loop_with_arrivals.induct)
  case (1 task arrivals queue p f trace)
  from "1.prems" have a1: "arrived arrivals = []" and t1: "concat (tl arrivals) = []"
    by (simp_all add: arrived_Nil concat_tl_Nil)
  from t1 have a2: "arrived (tl arrivals) = []" and t2: "concat (tl (tl arrivals)) = []"
    by (simp_all add: arrived_Nil concat_tl_Nil)
  show ?case
  proof (cases "queue = []")
    case True
    then show ?thesis
      by (simp add: drain_loop_with_arrivals.simps drain_loop.simps)
  next
    case False
    let ?popped = "pop_batch (min MAX_CONCURRENT_UPLOADS (length queue)) queue []"
    let ?counts = "count_results (map task (fst ?popped)) p f"
    show ?thesis
    proof (cases "snd ?popped = []")
      case True
      with "1.IH"(2) [OF False refl refl refl refl refl refl _ t1] a1
      have "drain_loop_with_arrivals task (tl arrivals) [] (fst ?counts) (snd ?counts)
              (trace @ [Batch (fst ?popped)])
            = drain_loop task [] (fst ?counts) (snd ?counts) (trace @ [Batch (fst ?popped)])"
        by simp
      with False True a1 show ?thesis
        by (subst drain_loop_with_arrivals.simps, subst drain_loop.simps)
          (simp add: Let_def)
    next
      case nonempty: False
      with "1.IH"(1) [OF False refl refl refl refl refl refl _ t2] a1 a2
      have "drain_loop_with_arrivals task (tl (tl arrivals)) (snd ?popped)
              (fst ?counts) (snd ?counts)
              ((trace @ [Batch (fst ?popped)]) @ [Sleep BULK_UPLOAD_DELAY])
            = drain_loop task (snd ?popped) (fst ?counts) (snd ?counts)
              ((trace @ [Batch (fst ?popped)]) @ [Sleep BULK_UPLOAD_DELAY])"
        by simp
      with False nonempty a1 a2 show ?thesis
        by (subst drain_loop_with_arrivals.simps, subst drain_loop.simps)
          (simp add: Let_def)
    qed
  qed
qed

lemma drain_loop_with_arrivals_batches:
  "\<exists>bs k. drain_loop_with_arrivals task arrivals queue p f trace
            = ([], p + length (filter (\<lambda>i. task i = Inr True) (concat bs)),
                   f + length (filter (\<lambda>i. task i \<noteq> Inr True) (concat bs)),
               trace @ paced bs)
         \<and> (\<forall>b \<in> set bs. b \<noteq> [] \<and> length b \<le> MAX_CONCURRENT_UPLOADS)
         \<and> concat bs = queue @ concat (take k arrivals)
         \<and> (queue \<noteq> [] \<longrightarrow> bs \<noteq> [])"
proof (induction task arrivals queue p f trace rule: drain_loop_with_arrivals.induct)
  case (1 task arrivals queue p f trace)
  show ?case
  proof (cases "queue = []")
    case True
    then have "drain_loop_with_arrivals task arrivals queue p f trace
               = ([], p + length (filter (\<lambda>i. task i = Inr True) (concat [])),
                      f + length (filter (\<lambda>i. task i \<noteq> Inr True) (concat [])),
                  trace @ paced [])
             \<and> (\<forall>b \<in> set ([] :: 'a list list). b \<noteq> [] \<and> length b \<le> MAX_CONCURRENT_UPLOADS)
             \<and> concat [] = queue @ concat (take 0 arrivals)
             \<and> (queue \<noteq> [] \<longrightarrow> ([] :: 'a list list) \<noteq> [])"
      by (simp add: drain_loop_with_arrivals.simps)
    then show ?thesis by blast
  next
    case False
    let ?n = MAX_CONCURRENT_UPLOADS
    let ?b = "take ?n queue"
    let ?q1 = "drop ?n queue @ arrived arrivals"
    let ?ok = "\<lambda>i. task i = Inr True" and ?bad = "\<lambda>i. task i \<noteq> Inr True"
    let ?p1 = "p + length (filter ?ok ?b)" and ?f1 = "f + length (filter ?bad ?b)"
    have pop: "pop_batch (min ?n (length queue)) queue [] = (?b, drop ?n queue)"
      by (simp add: pop_batch_eq min_def)
    have counts: "count_results (map task ?b) p f = (?p1, ?f1)"
      by (simp add: count_results_eq filter_map comp_def)
    have b: "?b \<noteq> [] \<and> length ?b \<le> ?n"
      using False by (simp add: MAX_CONCURRENT_UPLOADS_def)
    have unfolded: "drain_loop_with_arrivals task arrivals queue p f trace
          = (if ?q1 \<noteq> []
             then drain_loop_with_arrivals task (tl (tl arrivals))
                    (?q1 @ arrived (tl arrivals)) ?p1 ?f1
                    ((trace @ [Batch ?b]) @ [Sleep BULK_UPLOAD_DELAY])
             else drain_loop_with_arrivals task (tl arrivals) ?q1 ?p1 ?f1
                    (trace @ [Batch ?b]))"
      by (subst drain_loop_with_arrivals.simps)
        (simp only: False if_False Let_def pop counts fst_conv snd_conv)
    show ?thesis
    proof (cases "?q1 = []")
      case True
      have step: "drain_loop_with_arrivals task arrivals queue p f trace
            = drain_loop_with_arrivals task (tl arrivals) [] ?p1 ?f1 (trace @ [Batch ?b])"
        unfolding unfolded by (simp only: True) simp
      from True have whole: "?b = queue" by simp
      have stop: "drain_loop_with_arrivals task (tl arrivals) [] ?p1 ?f1 (trace @ [Batch ?b])
                  = ([], ?p1, ?f1, trace @ [Batch ?b])"
        by (subst drain_loop_with_arrivals.simps) simp
      have result: "drain_loop_with_arrivals task arrivals queue p f trace
               = ([], p + length (filter ?ok (concat [?b])),
                      f + length (filter ?bad (concat [?b])),
                  trace @ paced [?b])"
        by (simp only: step stop paced.simps concat.simps append_Nil2)
      have sizes: "\<forall>x \<in> set [?b]. x \<noteq> [] \<and> length x \<le> ?n"
        using b by simp
      have items: "concat [?b] = queue @ concat (take 0 arrivals)"
        using whole by simp
      from result sizes items show ?thesis by blast
    next
      case nonempty: False
      let ?q2 = "?q1 @ arrived (tl arrivals)"
      let ?tr = "(trace @ [Batch ?b]) @ [Sleep BULK_UPLOAD_DELAY]"
      have step: "drain_loop_with_arrivals task arrivals queue p f trace
            = drain_loop_with_arrivals task (tl (tl arrivals)) ?q2 ?p1 ?f1 ?tr"
        unfolding unfolded by (simp only: nonempty not_False_eq_True if_True)
      have "\<exists>bs k. drain_loop_with_arrivals task (tl (tl arrivals)) ?q2 ?p1 ?f1 ?tr
              = ([], ?p1 + length (filter ?ok (concat bs)),
                     ?f1 + length (filter ?bad (concat bs)), ?tr @ paced bs)
            \<and> (\<forall>x \<in> set bs. x \<noteq> [] \<and> length x \<le> ?n)
            \<and> concat bs = ?q2 @ concat (take k (tl (tl arrivals)))
            \<and> (?q2 \<noteq> [] \<longrightarrow> bs \<noteq> [])"
        by (rule "1.IH"(1) [OF False refl refl refl refl refl refl,
              unfolded pop fst_conv snd_conv counts, OF nonempty])
      with nonempty obtain bs k where
        run: "drain_loop_with_arrivals task (tl (tl arrivals)) ?q2 ?p1 ?f1 ?tr
              = ([], ?p1 + length (filter ?ok (concat bs)),
                     ?f1 + length (filter ?bad (concat bs)), ?tr @ paced bs)"
        and sizes: "\<forall>x \<in> set bs. x \<noteq> [] \<and> length x \<le> ?n"
        and items: "concat bs = ?q2 @ concat (take k (tl (tl arrivals)))"
        and some: "bs \<noteq> []"
        by auto
      have fifo: "concat (?b # bs) = queue @ concat (take (Suc (Suc k)) arrivals)"
      proof -
        have "concat (?b # bs) = ?b @ ?q2 @ concat (take k (tl (tl arrivals)))"
          using items by simp
        also have "\<dots> = (?b @ drop ?n queue) @ arrived arrivals @ arrived (tl arrivals)
                          @ concat (take k (tl (tl arrivals)))"
          by simp
        also have "\<dots> = queue @ concat (take (Suc (Suc k)) arrivals)"
          by (simp only: append_take_drop_id concat_take_Suc)
        finally show ?thesis .
      qed
      have pace: "?tr @ paced bs = trace @ paced (?b # bs)"
        using some by (cases bs) simp_all
      have result: "drain_loop_with_arrivals task arrivals queue p f trace
               = ([], p + length (filter ?ok (concat (?b # bs))),
                      f + length (filter ?bad (concat (?b # bs))),
                  trace @ paced (?b # bs))"
        unfolding step run by (simp only: pace) (simp add: add.assoc)
      have all_sizes: "\<forall>x \<in> set (?b # bs). x \<noteq> [] \<and> length x \<le> ?n"
        using b sizes by simp
      from result all_sizes fifo show ?thesis by blast
    qed
  qed
qed


lemma length_concat_bounded:
  "\<forall>b \<in> set bs. length b \<le> n \<Longrightarrow> length (concat bs) \<le> n * length bs"
  by (induction bs) auto

lemma ceil_div_bounded:
  fixes m k :: nat
  assumes "m \<le> 5 * k"
  shows "(m + 4) div 5 \<le> k"
proof -
  from assms have "(m + 4) div 5 \<le> (5 * k + 4) div 5"
    by (intro div_le_mono) simp
  then show ?thesis by simp
qed

lemma process_upload_queue_without_arrivals:
  "concat arrivals = [] \<Longrightarrow>
   process_upload_queue_with_arrivals task arrivals h = process_upload_queue task h"
  by (simp add: process_upload_queue_with_arrivals_def process_upload_queue_def
      drain_loop_without_arrivals)

text \<open>
  Claim C7, as amended. Items may be appended to the queue while the drain awaits a
  batch or sleeps. Whatever arrives, every batch has between one and five items, the
  batches are, in FIFO order, the items queued at the start followed by the items of
  the arrivals the loop has seen, the trace has one sleep between consecutive batches
  and none after the last, and the number of batches is at least \<open>ceil(M / 5)\<close> for
  the \<open>M\<close> items processed. When nothing arrives while the drain runs, a queue of \<open>N\<close>
  items is processed in exactly \<open>ceil(N / 5)\<close> batches, the \<open>i\<close>-th being the items
  \<open>5 i, ..., 5 i + 4\<close> of the queue.
\<close>

theorem drain_batches_with_arrivals:
  assumes "\<not> is_processing h"
  shows "(\<forall>b \<in> set (batches_of (events (process_upload_queue_with_arrivals task arrivals h))).
            b \<noteq> [] \<and> length b \<le> 5)
       \<and> (\<exists>k. concat (batches_of (events (process_upload_queue_with_arrivals task arrivals h)))
                = upload_queue h @ concat (take k arrivals))
       \<and> events (process_upload_queue_with_arrivals task arrivals h)
           = paced (batches_of (events (process_upload_queue_with_arrivals task arrivals h)))
       \<and> (length (concat (batches_of
              (events (process_upload_queue_with_arrivals task arrivals h)))) + 4) div 5
           \<le> length (batches_of (events (process_upload_queue_with_arrivals task arrivals h)))
       \<and> (concat arrivals = [] \<longrightarrow>
            length (batches_of (events (process_upload_queue_with_arrivals task arrivals h)))
              = (length (upload_queue h) + 4) div 5
          \<and> (\<forall>i < length (batches_of
                  (events (process_upload_queue_with_arrivals task arrivals h))).
                batches_of (events (process_upload_queue_with_arrivals task arrivals h)) ! i
                  = take 5 (drop (5 * i) (upload_queue h))))"
proof -
  let ?out = "process_upload_queue_with_arrivals task arrivals h"
  from drain_loop_with_arrivals_batches [of task arrivals "upload_queue h" 0 0 "[]"]
  obtain bs k where
    run: "drain_loop_with_arrivals task arrivals (upload_queue h) 0 0 []
          = ([], 0 + length (filter (\<lambda>i. task i = Inr True) (concat bs)),
                 0 + length (filter (\<lambda>i. task i \<noteq> Inr True) (concat bs)),
             [] @ paced bs)"
    and sizes: "\<forall>b \<in> set bs. b \<noteq> [] \<and> length b \<le> MAX_CONCURRENT_UPLOADS"
    and items: "concat bs = upload_queue h @ concat (take k arrivals)"
    by blast
  from assms run have ev: "events ?out = paced bs"
    by (simp add: process_upload_queue_with_arrivals_def)
  then have bs: "batches_of (events ?out) = bs"
    by (simp add: batches_of_paced)
  from sizes have five: "\<forall>b \<in> set bs. b \<noteq> [] \<and> length b \<le> 5"
    by (simp add: MAX_CONCURRENT_UPLOADS_def)
  then have "length (concat bs) \<le> 5 * length bs"
    by (simp add: length_concat_bounded)
  then have atleast: "(length (concat bs) + 4) div 5 \<le> length bs"
    by (rule ceil_div_bounded)
  have exact: "length bs = (length (upload_queue h) + 4) div 5
          \<and> (\<forall>i < length bs. bs ! i = take 5 (drop (5 * i) (upload_queue h)))"
    if "concat arrivals = []"
  proof -
    from that have "?out = process_upload_queue task h"
      by (rule process_upload_queue_without_arrivals)
    with bs have "batches_of (events (process_upload_queue task h)) = bs"
      by simp
    with drain_runs_ceil_batches_in_fifo_order [OF assms, of task] show ?thesis
      by simp
  qed
  from five items ev atleast exact show ?thesis
    unfolding bs by blast
qed

theorem drain_batches_with_arrivals_witness:
  "events (process_upload_queue_with_arrivals example_task [[2]]
      \<lparr>upload_queue = [1], is_processing = False\<rparr>)
     = paced (batches_of (events (process_upload_queue_with_arrivals example_task [[2]]
         \<lparr>upload_queue = [1], is_processing = False\<rparr>)))
   \<and> (length (concat (batches_of (events (process_upload_queue_with_arrivals example_task [[2]]
         \<lparr>upload_queue = [1], is_processing = False\<rparr>)))) + 4) div 5
       \<le> length (batches_of (events (process_upload_queue_with_arrivals example_task [[2]]
         \<lparr>upload_queue = [1], is_processing = False\<rparr>)))
   \<and> length (batches_of (events (process_upload_queue_with_arrivals example_task []
         \<lparr>upload_queue = [1, 2, 3, 4, 5, 6, 7], is_processing = False\<rparr>))) = 2
   \<and> batches_of (events (process_upload_queue_with_arrivals example_task []
         \<lparr>upload_queue = [1, 2, 3, 4, 5, 6, 7], is_processing = False\<rparr>)) ! 1 = [6, 7]"
proof -
  let ?h1 = "\<lparr>upload_queue = [1 :: nat], is_processing = False\<rparr>"
  let ?h7 = "\<lparr>upload_queue = [1, 2, 3, 4, 5, 6, 7 :: nat], is_processing = False\<rparr>"
  let ?bs = "batches_of (events (process_upload_queue_with_arrivals example_task [] ?h7))"
  have idle1: "\<not> is_processing ?h1" and idle7: "\<not> is_processing ?h7"
    by simp_all
  note a = drain_batches_with_arrivals [OF idle1, of example_task "[[2]]"]
  note s = drain_batches_with_arrivals [OF idle7, of example_task "[]"]
  from s have len: "length ?bs = 2"
    by simp
  from s have "\<forall>i < length ?bs. ?bs ! i = take 5 (drop (5 * i) (upload_queue ?h7))"
    by simp
  with len have "?bs ! 1 = [6, 7]"
    by simp
  with a len show ?thesis by blast
qed

text \<open>
  The claim as stated fails: one item is queued when the drain starts and a second
  one is enqueued while the first batch is awaited. The two items are processed in two
  batches, not in \<open>ceil(2 / 5) = 1\<close>.
\<close>

theorem arrival_during_drain_adds_a_batch:
  "events (process_upload_queue_with_arrivals example_task [[2]]
      \<lparr>upload_queue = [1], is_processing = False\<rparr>)
     = [Batch [1], Sleep 500, Batch [2]]
   \<and> length (batches_of (events (process_upload_queue_with_arrivals example_task [[2]]
         \<lparr>upload_queue = [1], is_processing = False\<rparr>))) = 2
   \<and> (length (concat (batches_of (events (process_upload_queue_with_arrivals example_task [[2]]
         \<lparr>upload_queue = [1], is_processing = False\<rparr>)))) + 4) div 5 = 1"
  by (simp add: process_upload_queue_with_arrivals_def drain_loop_with_arrivals.simps
      pop_batch_eq count_results_eq example_task_def arrived_def
      MAX_CONCURRENT_UPLOADS_def BULK_UPLOAD_DELAY_def Let_def)

end
